theory Spec2Isabelle
  imports Main "HOL-Library.AList"
begin

section \<open>Python values, dictionaries, sets and exceptions\<close>

text \<open>
  The orchestration core (\<^verbatim>\<open>Backend/AI_bot/core/agent_manager.py\<close> and
  \<^verbatim>\<open>Backend/AI_bot/core/communication.py\<close>) passes untyped Python values around
  (\<^verbatim>\<open>Dict[str, Any]\<close>). They are modelled by a JSON-like datatype. A Python
  \<^verbatim>\<open>bool\<close> is kept apart from an \<^verbatim>\<open>int\<close>; \<open>isinstance_int\<close> below records that
  Python nevertheless answers \<^verbatim>\<open>isinstance(True, int)\<close> with \<^verbatim>\<open>True\<close>.
\<close>

datatype pyval =
    PNone
  | PBool bool
  | PInt int
  | PStr string
  | PList "pyval list"
  | PDict "(string \<times> pyval) list"

text \<open>
  A Python \<^verbatim>\<open>dict\<close> is an association list in insertion order: \<open>map_of\<close> reads a key,
  \<open>AList.update\<close> overwrites a key in place or appends a new one, \<open>AList.delete\<close>
  removes it, \<open>dict_keys\<close> is the iteration order. A Python \<^verbatim>\<open>set\<close> of strings is the
  list of its members in the order in which the set is iterated.
\<close>

definition dict_keys :: "('k \<times> 'v) list \<Rightarrow> 'k list" where
  "dict_keys d = map fst d"

definition set_add :: "'a \<Rightarrow> 'a list \<Rightarrow> 'a list" where
  "set_add x s = (if x \<in> set s then s else s @ [x])"

definition set_discard :: "'a \<Rightarrow> 'a list \<Rightarrow> 'a list" where
  "set_discard x s = removeAll x s"

text \<open>
  The exceptions of \<^verbatim>\<open>core/exceptions.py\<close> that the modelled functions raise, with the
  built-in ones. \<open>AgentRaised\<close> is any exception that escapes a call into an agent; it
  carries the text \<^verbatim>\<open>str(e)\<close>. \<open>PyException\<close> is a plain \<^verbatim>\<open>Exception(msg)\<close>.
\<close>

datatype error =
    KeyError string
  | TypeError string
  | PydanticValidationError string
  | AgentError string
  | AgentCommunicationError string
  | ResourceNotFoundError string string string
  | AgentTimeoutError string nat
  | AgentRaised string
  | PyException string

section \<open>The message bus (core/communication.py)\<close>

datatype MessageType =
    TASK_REQUEST | TASK_RESPONSE | TASK_UPDATE | TASK_COMPLETE | TASK_FAILED
  | COORDINATION_REQUEST | COORDINATION_RESPONSE | WORKFLOW_START | WORKFLOW_STEP
  | WORKFLOW_COMPLETE
  | STATUS_UPDATE | HEALTH_CHECK | CAPABILITY_QUERY | CAPABILITY_RESPONSE
  | DATA_REQUEST | DATA_RESPONSE | RESOURCE_REQUEST | RESOURCE_RESPONSE
  | ERROR_NOTIFICATION | EXCEPTION_REPORT
  | SYSTEM_SHUTDOWN | AGENT_REGISTRATION | AGENT_DEREGISTRATION

datatype MessagePriority = LOW | NORMAL | HIGH | URGENT | CRITICAL

record Message =
  message_id :: string
  sender_id :: string
  recipient_id :: "string option"
  message_type :: MessageType
  priority :: MessagePriority
  timestamp :: nat
  correlation_id :: "string option"
  payload :: pyval
  metadata :: pyval

text \<open>
  \<^verbatim>\<open>CommunicationManager\<close>: the handlers (\<open>cm_agents\<close>), one inbound queue per agent
  (an unbounded \<^verbatim>\<open>asyncio.Queue\<close>, here the list of messages put and not yet taken,
  oldest first) and the subscriptions. The consumer tasks that empty the queues run
  concurrently and are not part of the model, so a queue only grows here.
\<close>

record 'h CommunicationManager =
  cm_agents :: "(string \<times> 'h) list"
  message_queues :: "(string \<times> Message list) list"
  subscriptions :: "(string \<times> string list) list"
  cm_running :: bool

definition cm_init :: "'h CommunicationManager" where
  "cm_init = \<lparr>cm_agents = [], message_queues = [], subscriptions = [], cm_running = False\<rparr>"

text \<open>\<^verbatim>\<open>await self.message_queues[k].put(m)\<close>: a missing key raises \<^verbatim>\<open>KeyError\<close>.\<close>

definition queue_put ::
  "(string \<times> Message list) list \<Rightarrow> string \<Rightarrow> Message \<Rightarrow> error + (string \<times> Message list) list" where
  "queue_put qs k m =
     (case map_of qs k of
        None \<Rightarrow> Inl (KeyError k)
      | Some q \<Rightarrow> Inr (AList.update k (q @ [m]) qs))"

definition cm_register_agent ::
  "'h CommunicationManager \<Rightarrow> string \<Rightarrow> 'h \<Rightarrow> error + 'h CommunicationManager" where
  "cm_register_agent cm agent_id handler =
     (if agent_id \<in> set (dict_keys (cm_agents cm))
      then Inl (AgentCommunicationError agent_id)
      else Inr (cm\<lparr>cm_agents := AList.update agent_id handler (cm_agents cm),
                   message_queues := AList.update agent_id [] (message_queues cm)\<rparr>))"

text \<open>
  The loop of \<^verbatim>\<open>unregister_agent\<close> over \<^verbatim>\<open>list(self.subscriptions.keys())\<close>: discard the
  agent from every subscriber set and delete the sets that become empty.
\<close>

fun prune_subscriptions ::
  "string \<Rightarrow> string list \<Rightarrow> (string \<times> string list) list \<Rightarrow> (string \<times> string list) list" where
  "prune_subscriptions agent_id [] subs = subs"
| "prune_subscriptions agent_id (event_type # ks) subs =
     (case map_of subs event_type of
        None \<Rightarrow> prune_subscriptions agent_id ks subs
      | Some s \<Rightarrow>
          (let s' = set_discard agent_id s
           in prune_subscriptions agent_id ks
                (if s' = [] then AList.delete event_type subs
                 else AList.update event_type s' subs)))"

definition cm_unregister_agent :: "'h CommunicationManager \<Rightarrow> string \<Rightarrow> 'h CommunicationManager" where
  "cm_unregister_agent cm agent_id =
     (if agent_id \<notin> set (dict_keys (cm_agents cm)) then cm
      else cm\<lparr>cm_agents := AList.delete agent_id (cm_agents cm),
              message_queues := AList.delete agent_id (message_queues cm),
              subscriptions :=
                prune_subscriptions agent_id (dict_keys (subscriptions cm)) (subscriptions cm)\<rparr>)"

text \<open>
  The broadcast loop of \<^verbatim>\<open>send_message\<close>: for every key of \<^verbatim>\<open>self.agents\<close>, a copy of
  the message with \<^verbatim>\<open>recipient_id\<close> overwritten is put on that agent's queue. An
  exception stops the loop; what was put before stays.
\<close>

fun broadcast ::
  "string list \<Rightarrow> (string \<times> Message list) list \<Rightarrow> Message
     \<Rightarrow> (string \<times> Message list) list \<times> error option" where
  "broadcast [] qs message = (qs, None)"
| "broadcast (agent_id # rest) qs message =
     (case queue_put qs agent_id (message\<lparr>recipient_id := Some agent_id\<rparr>) of
        Inl e \<Rightarrow> (qs, Some e)
      | Inr qs' \<Rightarrow> broadcast rest qs' message)"

text \<open>
  \<^verbatim>\<open>send_message\<close>. The test \<^verbatim>\<open>if message.recipient_id:\<close> is Python truthiness: it fails
  for \<^verbatim>\<open>None\<close> and for the empty string. Every exception is caught and answered by
  \<^verbatim>\<open>False\<close>.
\<close>

definition truthy_str :: "string option \<Rightarrow> bool" where
  "truthy_str s = (case s of None \<Rightarrow> False | Some t \<Rightarrow> t \<noteq> [])"

definition send_message ::
  "'h CommunicationManager \<Rightarrow> Message \<Rightarrow> 'h CommunicationManager \<times> bool" where
  "send_message cm message =
     (if truthy_str (recipient_id message) then
        (let r = the (recipient_id message) in
         if r \<notin> set (dict_keys (cm_agents cm)) then (cm, False)
         else (case queue_put (message_queues cm) r message of
                 Inl e \<Rightarrow> (cm, False)
               | Inr qs \<Rightarrow> (cm\<lparr>message_queues := qs\<rparr>, True)))
      else
        (case broadcast (dict_keys (cm_agents cm)) (message_queues cm) message of
           (qs, Some e) \<Rightarrow> (cm\<lparr>message_queues := qs\<rparr>, False)
         | (qs, None) \<Rightarrow> (cm\<lparr>message_queues := qs\<rparr>, True)))"

text \<open>
  The delivery loop of \<^verbatim>\<open>publish_event\<close> over the subscriber set; the sender is
  skipped. Nothing catches a \<^verbatim>\<open>KeyError\<close> of \<^verbatim>\<open>self.message_queues[agent_id]\<close> here.
\<close>

fun publish_loop ::
  "string list \<Rightarrow> string \<Rightarrow> (string \<times> Message list) list \<Rightarrow> Message
     \<Rightarrow> (string \<times> Message list) list \<times> error option" where
  "publish_loop [] sender qs message = (qs, None)"
| "publish_loop (agent_id # rest) sender qs message =
     (if agent_id \<noteq> sender then
        (case queue_put qs agent_id (message\<lparr>recipient_id := Some agent_id\<rparr>) of
           Inl e \<Rightarrow> (qs, Some e)
         | Inr qs' \<Rightarrow> publish_loop rest sender qs' message)
      else publish_loop rest sender qs message)"

text \<open>
  \<^verbatim>\<open>publish_event\<close>; \<open>mid\<close> and \<open>now\<close> are the values that \<^verbatim>\<open>uuid4()\<close> and
  \<^verbatim>\<open>datetime.utcnow()\<close> return when the \<^verbatim>\<open>Message\<close> is built.
\<close>

definition event_message :: "string \<Rightarrow> pyval \<Rightarrow> string \<Rightarrow> string \<Rightarrow> nat \<Rightarrow> Message" where
  "event_message event_type data sender mid now =
     \<lparr>message_id = mid, sender_id = sender, recipient_id = None,
      message_type = STATUS_UPDATE, priority = NORMAL, timestamp = now,
      correlation_id = None,
      payload = PDict [(''event_type'', PStr event_type), (''data'', data)],
      metadata = PDict [(''is_event'', PBool True)]\<rparr>"

definition publish_event ::
  "'h CommunicationManager \<Rightarrow> string \<Rightarrow> pyval \<Rightarrow> string \<Rightarrow> string \<Rightarrow> nat
     \<Rightarrow> 'h CommunicationManager \<times> error option" where
  "publish_event cm event_type data sender mid now =
     (case map_of (subscriptions cm) event_type of
        None \<Rightarrow> (cm, None)
      | Some subscribers \<Rightarrow>
          (case publish_loop subscribers sender (message_queues cm)
                  (event_message event_type data sender mid now) of
             (qs, r) \<Rightarrow> (cm\<lparr>message_queues := qs\<rparr>, r)))"

definition subscribe_to_event ::
  "'h CommunicationManager \<Rightarrow> string \<Rightarrow> string \<Rightarrow> 'h CommunicationManager" where
  "subscribe_to_event cm agent_id event_type =
     (let subs = (if event_type \<notin> set (dict_keys (subscriptions cm))
                  then AList.update event_type [] (subscriptions cm)
                  else subscriptions cm)
      in cm\<lparr>subscriptions :=
              AList.update event_type (set_add agent_id (the (map_of subs event_type))) subs\<rparr>)"

definition unsubscribe_from_event ::
  "'h CommunicationManager \<Rightarrow> string \<Rightarrow> string \<Rightarrow> 'h CommunicationManager" where
  "unsubscribe_from_event cm agent_id event_type =
     (case map_of (subscriptions cm) event_type of
        None \<Rightarrow> cm
      | Some s \<Rightarrow>
          (let s' = set_discard agent_id s
           in cm\<lparr>subscriptions :=
                   (if s' = [] then AList.delete event_type (subscriptions cm)
                    else AList.update event_type s' (subscriptions cm))\<rparr>))"

text \<open>
  The bus keeps one queue per registered agent: \<^verbatim>\<open>register_agent\<close> creates both entries
  and \<^verbatim>\<open>unregister_agent\<close> deletes both. The keys of a dictionary are distinct.
\<close>

definition comm_wf :: "'h CommunicationManager \<Rightarrow> bool" where
  "comm_wf cm \<longleftrightarrow>
     distinct (dict_keys (cm_agents cm)) \<and>
     set (dict_keys (cm_agents cm)) \<subseteq> set (dict_keys (message_queues cm))"

section \<open>Agents and the registry (core/agent_manager.py)\<close>

text \<open>
  Time is a logical clock kept with the manager: \<^verbatim>\<open>datetime.utcnow()\<close> reads \<open>clock\<close>,
  and every completed \<^verbatim>\<open>await\<close> of an agent method or of \<^verbatim>\<open>asyncio.sleep\<close> advances it
  by one. An agent is an external collaborator: its methods are given as functions of
  the time of the call, so an agent may answer differently at different times.

  \<^item> \<open>process_request\<close> at a time, for a query, a context and a deadline, is the outcome
    of \<^verbatim>\<open>await asyncio.wait_for(agent.process_request(query, context), timeout)\<close>:
    a response, the deadline passing, or an exception escaping the agent.
  \<^item> \<open>health_check\<close> and \<open>get_capabilities\<close> return a dictionary or raise (\<open>Inl\<close>
    carries \<^verbatim>\<open>str(e)\<close>); \<open>shutdown\<close> returns or raises (\<open>Some\<close>).
\<close>

record AgentResponse =
  success :: bool
  resp_data :: "pyval option"
  resp_error :: "string option"
  resp_agent_id :: string

datatype process_outcome = Responded AgentResponse | TimedOut | Raised string

record BaseAgent =
  config_agent_id :: string
  config_timeout :: nat
  process_request :: "nat \<Rightarrow> pyval \<Rightarrow> pyval option \<Rightarrow> nat \<Rightarrow> process_outcome"
  health_check :: "nat \<Rightarrow> string + (string \<times> pyval) list"
  get_capabilities :: "nat \<Rightarrow> string + (string \<times> pyval) list"
  shutdown :: "nat \<Rightarrow> string option"

record AgentRegistration =
  reg_agent_id :: string
  reg_agent_type :: string
  agent_instance :: BaseAgent
  capabilities :: "string list"
  registered_at :: nat
  last_heartbeat :: nat
  reg_status :: string

record WorkflowStep =
  step_id :: string
  step_agent_type :: string
  task :: string
  step_data :: pyval
  dependencies :: "string list"
  step_status :: string
  result :: "pyval option"
  step_error :: "string option"
  step_started_at :: "nat option"
  step_completed_at :: "nat option"

record Workflow =
  workflow_id :: string
  name :: string
  description :: string
  steps :: "WorkflowStep list"
  wf_status :: string
  created_at :: nat
  started_at :: "nat option"
  completed_at :: "nat option"
  wf_metadata :: pyval

text \<open>
  \<^verbatim>\<open>AgentManager\<close>. \<open>log_warnings\<close> collects the calls of \<^verbatim>\<open>self.logger.warning\<close> made
  by \<^verbatim>\<open>create_workflow\<close>, each with its \<^verbatim>\<open>step_index\<close>, \<^verbatim>\<open>dependency_index\<close> and
  \<^verbatim>\<open>total_steps\<close>.
\<close>

record AgentManager =
  agents :: "(string \<times> AgentRegistration) list"
  agent_types :: "(string \<times> string list) list"
  workflows :: "(string \<times> Workflow) list"
  communication_manager :: "BaseAgent CommunicationManager"
  running :: bool
  clock :: nat
  log_warnings :: "(nat \<times> pyval \<times> nat) list"

definition manager_init :: AgentManager where
  "manager_init =
     \<lparr>agents = [], agent_types = [], workflows = [], communication_manager = cm_init,
      running = False, clock = 0, log_warnings = []\<rparr>"

definition tick :: "AgentManager \<Rightarrow> AgentManager" where
  "tick mgr = mgr\<lparr>clock := Suc (clock mgr)\<rparr>"

subsection \<open>Texts of exceptions\<close>

text \<open>The decimal digits of a number, as \<^verbatim>\<open>str\<close> and the f-strings print it.\<close>

fun show_nat :: "nat \<Rightarrow> string" where
  "show_nat n =
     (if n < 10 then [''0123456789'' ! n]
      else show_nat (n div 10) @ [''0123456789'' ! (n mod 10)])"

text \<open>\<^verbatim>\<open>repr\<close> of a string that needs no escaping: the string between apostrophes.\<close>

definition py_repr :: "string \<Rightarrow> string" where
  "py_repr s = CHR 0x27 # s @ [CHR 0x27]"

definition str_opt :: "string option \<Rightarrow> string" where
  "str_opt s = (case s of None \<Rightarrow> ''None'' | Some t \<Rightarrow> t)"

text \<open>
  \<^verbatim>\<open>str(e)\<close>. For the classes of \<^verbatim>\<open>core/exceptions.py\<close> it is the message, followed
  by the details when there are some; only \<^verbatim>\<open>AgentTimeoutError\<close> is raised with details
  (the agent id and the agent type).
\<close>

fun str_of_error :: "error \<Rightarrow> string" where
  "str_of_error (KeyError k) = py_repr k"
| "str_of_error (TypeError m) = m"
| "str_of_error (PydanticValidationError m) = m"
| "str_of_error (AgentError m) = m"
| "str_of_error (AgentCommunicationError m) = m"
| "str_of_error (ResourceNotFoundError m resource_type resource_id) = m"
| "str_of_error (AgentTimeoutError m timeout_seconds) = m"
| "str_of_error (AgentRaised m) = m"
| "str_of_error (PyException m) = m"

definition no_agents_error :: "string \<Rightarrow> error" where
  "no_agents_error agent_type =
     ResourceNotFoundError (''No agents of type '' @ py_repr agent_type @ '' available'')
       ''agent_type'' agent_type"

definition timeout_error :: "nat \<Rightarrow> string \<Rightarrow> string \<Rightarrow> error" where
  "timeout_error timeout agent_id agent_type =
     AgentTimeoutError
       (''Agent query timed out after '' @ show_nat timeout @ '' seconds - Details: {''
          @ py_repr ''agent_id'' @ '': '' @ py_repr agent_id @ '', ''
          @ py_repr ''agent_type'' @ '': '' @ py_repr agent_type @ ''}'')
       timeout"

subsection \<open>Registration\<close>

text \<open>
  The field \<^verbatim>\<open>capabilities: List[str]\<close> of \<^verbatim>\<open>AgentRegistration\<close> is validated by
  pydantic: a list of strings, or a validation error.
\<close>

fun str_of_pyval :: "pyval \<Rightarrow> string option" where
  "str_of_pyval (PStr s) = Some s"
| "str_of_pyval v = None"

fun str_list_of_pyvals :: "pyval list \<Rightarrow> string list option" where
  "str_list_of_pyvals [] = Some []"
| "str_list_of_pyvals (v # vs) =
     (case str_of_pyval v of
        None \<Rightarrow> None
      | Some s \<Rightarrow> (case str_list_of_pyvals vs of None \<Rightarrow> None | Some ss \<Rightarrow> Some (s # ss)))"

fun validate_str_list :: "pyval \<Rightarrow> string list option" where
  "validate_str_list (PList vs) = str_list_of_pyvals vs"
| "validate_str_list v = None"

definition register_agent ::
  "AgentManager \<Rightarrow> BaseAgent \<Rightarrow> string \<Rightarrow> AgentManager \<times> (error + string)" where
  "register_agent mgr agent agent_type =
     (let agent_id = config_agent_id agent in
      if agent_id \<in> set (dict_keys (agents mgr))
      then (mgr, Inl (AgentError (''Agent '' @ agent_id @ '' is already registered'')))
      else
        (case get_capabilities agent (clock mgr) of
           Inl exc \<Rightarrow> (tick mgr, Inl (AgentRaised exc))
         | Inr caps \<Rightarrow>
             (let mgr1 = tick mgr;
                  supported = (case map_of caps ''supported_operations'' of
                                 None \<Rightarrow> PList [] | Some v \<Rightarrow> v)
              in case validate_str_list supported of
                   None \<Rightarrow> (mgr1, Inl (PydanticValidationError ''AgentRegistration''))
                 | Some ops \<Rightarrow>
                     (let registration =
                            \<lparr>reg_agent_id = agent_id, reg_agent_type = agent_type,
                             agent_instance = agent, capabilities = ops,
                             registered_at = clock mgr1, last_heartbeat = clock mgr1,
                             reg_status = ''active''\<rparr>;
                          types1 = (if agent_type \<notin> set (dict_keys (agent_types mgr1))
                                    then AList.update agent_type [] (agent_types mgr1)
                                    else agent_types mgr1);
                          types2 = AList.update agent_type
                                     (set_add agent_id (the (map_of types1 agent_type))) types1;
                          mgr2 = mgr1\<lparr>agents := AList.update agent_id registration (agents mgr1),
                                      agent_types := types2\<rparr>
                      in case cm_register_agent (communication_manager mgr2) agent_id agent of
                           Inl e \<Rightarrow> (mgr2, Inl e)
                         | Inr cm \<Rightarrow> (mgr2\<lparr>communication_manager := cm\<rparr>, Inr agent_id)))))"

definition unregister_agent :: "AgentManager \<Rightarrow> string \<Rightarrow> AgentManager \<times> error option" where
  "unregister_agent mgr agent_id =
     (case map_of (agents mgr) agent_id of
        None \<Rightarrow> (mgr, None)
      | Some registration \<Rightarrow>
          (let t = reg_agent_type registration;
               types1 = (case map_of (agent_types mgr) t of
                           None \<Rightarrow> agent_types mgr
                         | Some members \<Rightarrow>
                             (let members' = set_discard agent_id members
                              in if members' = [] then AList.delete t (agent_types mgr)
                                 else AList.update t members' (agent_types mgr)));
               mgr1 = mgr\<lparr>agent_types := types1,
                          communication_manager :=
                            cm_unregister_agent (communication_manager mgr) agent_id\<rparr>
           in case shutdown (agent_instance registration) (clock mgr1) of
                Some exc \<Rightarrow> (tick mgr1, Some (AgentRaised exc))
              | None \<Rightarrow>
                  ((tick mgr1)\<lparr>agents := AList.delete agent_id (agents mgr1)\<rparr>, None)))"

subsection \<open>Routing a query\<close>

text \<open>
  Lines 221 to 230 of \<^verbatim>\<open>query_agent\<close>: the availability test and the choice of
  \<^verbatim>\<open>list(self.agent_types[agent_type])[0]\<close>, the first member in the set's iteration
  order. The registration status is not read.
\<close>

definition select_agent :: "AgentManager \<Rightarrow> string \<Rightarrow> error + string" where
  "select_agent mgr agent_type =
     (case map_of (agent_types mgr) agent_type of
        None \<Rightarrow> Inl (no_agents_error agent_type)
      | Some [] \<Rightarrow> Inl (no_agents_error agent_type)
      | Some (selected_agent_id # others) \<Rightarrow> Inr selected_agent_id)"

definition query_agent ::
  "AgentManager \<Rightarrow> string \<Rightarrow> pyval \<Rightarrow> pyval option \<Rightarrow> nat option
     \<Rightarrow> AgentManager \<times> (error + AgentResponse)" where
  "query_agent mgr agent_type query context timeout =
     (case select_agent mgr agent_type of
        Inl e \<Rightarrow> (mgr, Inl e)
      | Inr selected_agent_id \<Rightarrow>
          (case map_of (agents mgr) selected_agent_id of
             None \<Rightarrow> (mgr, Inl (KeyError selected_agent_id))
           | Some registration \<Rightarrow>
               (let agent = agent_instance registration;
                    timeout' = (case timeout of None \<Rightarrow> config_timeout agent | Some t \<Rightarrow> t)
                in case process_request agent (clock mgr) query context timeout' of
                     Responded response \<Rightarrow>
                       ((tick mgr)\<lparr>agents :=
                            AList.update selected_agent_id
                              (registration\<lparr>last_heartbeat := Suc (clock mgr)\<rparr>) (agents mgr)\<rparr>,
                        Inr response)
                   | TimedOut \<Rightarrow>
                       (tick mgr, Inl (timeout_error timeout' selected_agent_id agent_type))
                   | Raised exc \<Rightarrow> (tick mgr, Inl (AgentRaised exc)))))"

subsection \<open>The health monitor\<close>

text \<open>
  The body of the \<^verbatim>\<open>for\<close> loop of \<^verbatim>\<open>_health_check_loop\<close> for one registration, the
  health check being called at time \<open>now\<close>. A missing \<^verbatim>\<open>"status"\<close> key is a
  \<^verbatim>\<open>KeyError\<close>, caught like every exception of the health check.
\<close>

definition check_registration :: "nat \<Rightarrow> AgentRegistration \<Rightarrow> AgentRegistration" where
  "check_registration now registration =
     (case health_check (agent_instance registration) now of
        Inl exc \<Rightarrow> registration\<lparr>reg_status := ''error''\<rparr>
      | Inr health_status \<Rightarrow>
          (case map_of health_status ''status'' of
             None \<Rightarrow> registration\<lparr>reg_status := ''error''\<rparr>
           | Some v \<Rightarrow>
               if v = PStr ''healthy''
               then registration\<lparr>reg_status := ''active'', last_heartbeat := Suc now\<rparr>
               else registration\<lparr>reg_status := ''error''\<rparr>))"

fun health_check_items ::
  "(string \<times> AgentRegistration) list \<Rightarrow> nat \<Rightarrow> (string \<times> AgentRegistration) list" where
  "health_check_items [] now = []"
| "health_check_items ((agent_id, registration) # rest) now =
     (agent_id, check_registration now registration) # health_check_items rest (Suc now)"

text \<open>
  One cycle of the monitor: the loop over \<^verbatim>\<open>self.agents.items()\<close>, then the sleep of
  30 seconds. The enclosing \<^verbatim>\<open>while self.running\<close> repeats the cycle until the task is
  cancelled.
\<close>

definition health_check_cycle :: "AgentManager \<Rightarrow> AgentManager" where
  "health_check_cycle mgr =
     mgr\<lparr>agents := health_check_items (agents mgr) (clock mgr),
         clock := Suc (clock mgr + length (agents mgr))\<rparr>"

text \<open>
  What the monitor takes for a healthy answer of an agent at a given time: the health
  check returns a dictionary whose \<^verbatim>\<open>"status"\<close> entry is the string \<^verbatim>\<open>"healthy"\<close>.
\<close>

definition reports_healthy :: "BaseAgent \<Rightarrow> nat \<Rightarrow> bool" where
  "reports_healthy agent now =
     (case health_check agent now of
        Inl exc \<Rightarrow> False
      | Inr health_status \<Rightarrow> map_of health_status ''status'' = Some (PStr ''healthy''))"

section \<open>Workflows (core/agent_manager.py)\<close>

subsection \<open>Creating a workflow\<close>

text \<open>
  \<^verbatim>\<open>isinstance(dep_idx, int)\<close>, with the integer the value stands for: Python's \<^verbatim>\<open>bool\<close>
  is a subclass of \<^verbatim>\<open>int\<close>, \<^verbatim>\<open>True\<close> being 1 and \<^verbatim>\<open>False\<close> being 0.
\<close>

fun isinstance_int :: "pyval \<Rightarrow> int option" where
  "isinstance_int (PInt n) = Some n"
| "isinstance_int (PBool b) = Some (if b then 1 else 0)"
| "isinstance_int v = None"

text \<open>
  The guard \<^verbatim>\<open>isinstance(dep_idx, int) and 0 <= dep_idx < i\<close> of \<^verbatim>\<open>create_workflow\<close>.
\<close>

definition valid_dependency :: "nat \<Rightarrow> pyval \<Rightarrow> bool" where
  "valid_dependency i dep_idx =
     (case isinstance_int dep_idx of
        None \<Rightarrow> False
      | Some d \<Rightarrow> 0 \<le> d \<and> d < int i)"

text \<open>
  What \<^verbatim>\<open>for dep_idx in step_def["dependencies"]\<close> iterates over: the elements of a
  list, the characters of a string, the keys of a dictionary; any other value of
  \<open>pyval\<close> is not iterable (\<^verbatim>\<open>TypeError\<close>).
\<close>

fun py_iter :: "pyval \<Rightarrow> pyval list option" where
  "py_iter (PList vs) = Some vs"
| "py_iter (PStr s) = Some (map (\<lambda>c. PStr [c]) s)"
| "py_iter (PDict d) = Some (map (\<lambda>kv. PStr (fst kv)) d)"
| "py_iter v = None"

text \<open>
  The inner loop of \<^verbatim>\<open>create_workflow\<close> for the step at position \<open>i\<close>: the resolved
  dependencies in the order of their declaration, and the warnings logged for the
  dropped ones. \<open>step_ids\<close> holds the ids of the steps \<open>0\<close> to \<open>i\<close>.
\<close>

fun resolve_dependencies ::
  "nat \<Rightarrow> nat \<Rightarrow> string list \<Rightarrow> pyval list \<Rightarrow> string list \<times> (nat \<times> pyval \<times> nat) list" where
  "resolve_dependencies i total_steps step_ids [] = ([], [])"
| "resolve_dependencies i total_steps step_ids (dep_idx # rest) =
     (case resolve_dependencies i total_steps step_ids rest of
        (deps, warns) \<Rightarrow>
          if valid_dependency i dep_idx
          then (step_ids ! nat (the (isinstance_int dep_idx)) # deps, warns)
          else (deps, (i, dep_idx, total_steps) # warns))"

text \<open>
  The construction \<^verbatim>\<open>WorkflowStep(step_id=..., agent_type=step_def["agent"],
  task=step_def["task"], data=step_def.get("data", {}), dependencies=...)\<close>: the two
  subscripts raise \<^verbatim>\<open>KeyError\<close> on a missing key, then pydantic validates that the
  agent type and the task are strings and the data a dictionary.
\<close>

definition make_step ::
  "string \<Rightarrow> (string \<times> pyval) list \<Rightarrow> string list \<Rightarrow> error + WorkflowStep" where
  "make_step sid step_def deps =
     (case map_of step_def ''agent'' of
        None \<Rightarrow> Inl (KeyError ''agent'')
      | Some a \<Rightarrow>
          (case map_of step_def ''task'' of
             None \<Rightarrow> Inl (KeyError ''task'')
           | Some t \<Rightarrow>
               (let d = (case map_of step_def ''data'' of None \<Rightarrow> PDict [] | Some v \<Rightarrow> v)
                in case (a, t, d) of
                     (PStr agent_type, PStr task_name, PDict kvs) \<Rightarrow>
                       Inr \<lparr>step_id = sid, step_agent_type = agent_type, task = task_name,
                            step_data = d, dependencies = deps, step_status = ''pending'',
                            result = None, step_error = None, step_started_at = None,
                            step_completed_at = None\<rparr>
                   | _ \<Rightarrow> Inl (PydanticValidationError ''WorkflowStep''))))"

text \<open>
  The values that the inner loop visits for a step definition: none when the key
  \<^verbatim>\<open>"dependencies"\<close> is missing; \<open>None\<close> stands for the \<^verbatim>\<open>TypeError\<close> of a value that
  cannot be iterated.
\<close>

definition declared_dependencies :: "(string \<times> pyval) list \<Rightarrow> pyval list option" where
  "declared_dependencies step_def =
     (case map_of step_def ''dependencies'' of
        None \<Rightarrow> Some []
      | Some v \<Rightarrow> py_iter v)"

text \<open>
  The outer loop of \<^verbatim>\<open>create_workflow\<close> over the remaining step definitions.
  \<open>uuid k\<close> is the value of the \<open>k\<close>-th call of \<^verbatim>\<open>uuid4()\<close> made by this call of
  \<^verbatim>\<open>create_workflow\<close>, counted from 0; the position \<open>i\<close> of the current step is the
  number of steps built so far. An exception leaves the loop with the warnings logged
  up to then.
\<close>

fun build_steps ::
  "(nat \<Rightarrow> string) \<Rightarrow> nat \<Rightarrow> (string \<times> pyval) list list
     \<Rightarrow> WorkflowStep list \<Rightarrow> string list \<Rightarrow> (nat \<times> pyval \<times> nat) list
     \<Rightarrow> (nat \<times> pyval \<times> nat) list \<times> (error + WorkflowStep list)" where
  "build_steps uuid total_steps [] steps_acc step_ids warns = (warns, Inr steps_acc)"
| "build_steps uuid total_steps (step_def # rest) steps_acc step_ids warns =
     (let i = length steps_acc;
          sid = uuid i;
          step_ids' = step_ids @ [sid]
      in case declared_dependencies step_def of
           None \<Rightarrow> (warns, Inl (TypeError ''object is not iterable''))
         | Some declared \<Rightarrow>
             (case resolve_dependencies i total_steps step_ids' declared of
                (deps, new_warns) \<Rightarrow>
                  (case make_step sid step_def deps of
                     Inl e \<Rightarrow> (warns @ new_warns, Inl e)
                   | Inr step \<Rightarrow>
                       build_steps uuid total_steps rest (steps_acc @ [step]) step_ids'
                         (warns @ new_warns))))"

definition create_workflow ::
  "(nat \<Rightarrow> string) \<Rightarrow> AgentManager \<Rightarrow> (string \<times> pyval) list list
     \<Rightarrow> AgentManager \<times> (error + Workflow)" where
  "create_workflow uuid mgr workflow_definition =
     (case build_steps uuid (length workflow_definition) workflow_definition [] []
             (log_warnings mgr) of
        (warns, Inl e) \<Rightarrow> (mgr\<lparr>log_warnings := warns\<rparr>, Inl e)
      | (warns, Inr built) \<Rightarrow>
          (let workflow =
                 \<lparr>workflow_id = uuid (length workflow_definition),
                  name = ''Workflow_'' @ show_nat (clock mgr),
                  description = ''Generated workflow'',
                  steps = built, wf_status = ''pending'', created_at = clock mgr,
                  started_at = None, completed_at = None, wf_metadata = PDict []\<rparr>
           in (mgr\<lparr>log_warnings := warns,
                   workflows := AList.update (workflow_id workflow) workflow (workflows mgr)\<rparr>,
               Inr workflow)))"

text \<open>
  For the statements about \<^verbatim>\<open>create_workflow\<close>. A step definition is well-formed when
  it has the keys \<^verbatim>\<open>"agent"\<close> and \<^verbatim>\<open>"task"\<close> with strings, its \<^verbatim>\<open>"data"\<close>, if present,
  is a dictionary and its \<^verbatim>\<open>"dependencies"\<close>, if present, can be iterated; the entries
  of the dependencies are arbitrary values.
\<close>

definition step_def_ok :: "(string \<times> pyval) list \<Rightarrow> bool" where
  "step_def_ok sd \<longleftrightarrow>
     (case map_of sd ''agent'' of Some (PStr a) \<Rightarrow> True | _ \<Rightarrow> False) \<and>
     (case map_of sd ''task'' of Some (PStr t) \<Rightarrow> True | _ \<Rightarrow> False) \<and>
     (case map_of sd ''data'' of None \<Rightarrow> True | Some (PDict kvs) \<Rightarrow> True | _ \<Rightarrow> False) \<and>
     declared_dependencies sd \<noteq> None"

definition declared_list :: "(string \<times> pyval) list \<Rightarrow> pyval list" where
  "declared_list sd = (case declared_dependencies sd of None \<Rightarrow> [] | Some vs \<Rightarrow> vs)"

text \<open>
  The warnings expected for the step definitions from position \<open>i\<close> on: one for each
  declared dependency that is not an integer \<open>d\<close> with \<open>0 \<le> d < i\<close>, in the order of
  the steps and of the declarations.
\<close>

fun dropped_from :: "nat \<Rightarrow> nat \<Rightarrow> (string \<times> pyval) list list \<Rightarrow> (nat \<times> pyval \<times> nat) list" where
  "dropped_from i total_steps [] = []"
| "dropped_from i total_steps (sd # rest) =
     map (\<lambda>v. (i, v, total_steps)) (filter (\<lambda>v. \<not> valid_dependency i v) (declared_list sd))
       @ dropped_from (Suc i) total_steps rest"

text \<open>
  The dependency graph of a list of steps: an edge from the id of a step to each id in
  its \<^verbatim>\<open>dependencies\<close>.
\<close>

definition dependency_graph :: "WorkflowStep list \<Rightarrow> (string \<times> string) set" where
  "dependency_graph ss = {(step_id s, d) | s d. s \<in> set ss \<and> d \<in> set (dependencies s)}"

subsection \<open>Executing a workflow\<close>

text \<open>
  A dispatch is recorded each time \<^verbatim>\<open>execute_workflow\<close> writes \<^verbatim>\<open>step.status = "running"\<close>
  and calls \<^verbatim>\<open>query_agent\<close>: the position of the step, the set \<^verbatim>\<open>completed_steps\<close> and
  the steps of the workflow as they were just before the write, the times at which
  the call was made and at which it ended, and what the call gave (a response, or the
  exception it raised). The list of dispatches is a history kept beside the program
  state; the program does not read it.
\<close>

record dispatch =
  d_index :: nat
  d_completed :: "string list"
  d_steps :: "WorkflowStep list"
  d_started :: nat
  d_finished :: nat
  d_outcome :: "error + AgentResponse"

record exec_state =
  ex_mgr :: AgentManager
  ex_steps :: "WorkflowStep list"
  results :: "(string \<times> pyval option) list"
  completed_steps :: "string list"
  dispatched :: "dispatch list"

text \<open>The condition under which the scan starts a step.\<close>

definition step_ready :: "string list \<Rightarrow> WorkflowStep \<Rightarrow> bool" where
  "step_ready completed step \<longleftrightarrow>
     step_id step \<notin> set completed \<and> step_status step = ''pending'' \<and>
     list_all (\<lambda>dep. dep \<in> set completed) (dependencies step)"

definition step_failed_error :: "string option \<Rightarrow> error" where
  "step_failed_error e = PyException (''Step failed: '' @ str_opt e)"

definition deadlock_error :: error where
  "deadlock_error = PyException ''Workflow deadlock detected - no progress possible''"

text \<open>
  The body of \<^verbatim>\<open>for step in workflow.steps\<close> for the step at position \<open>i\<close>. It returns
  the new state and the exception that leaves the loop, if one does. In the handler
  \<^verbatim>\<open>except Exception as e\<close> the step gets \<^verbatim>\<open>status = "failed"\<close>, \<^verbatim>\<open>error = str(e)\<close> and
  its completion time, and the exception is raised again.
\<close>

definition run_step :: "nat \<Rightarrow> exec_state \<Rightarrow> exec_state \<times> error option" where
  "run_step i st =
     (let step = ex_steps st ! i in
      if step_ready (completed_steps st) step then
        (let step1 = step\<lparr>step_status := ''running'',
                          step_started_at := Some (clock (ex_mgr st))\<rparr>
         in case query_agent (ex_mgr st) (step_agent_type step1) (PStr (task step1))
                   (Some (step_data step1)) None of
              (mgr', outcome) \<Rightarrow>
                (let st1 = st\<lparr>ex_mgr := mgr',
                              dispatched := dispatched st @
                                [\<lparr>d_index = i, d_completed = completed_steps st,
                                  d_steps = ex_steps st, d_started = clock (ex_mgr st),
                                  d_finished = clock mgr', d_outcome = outcome\<rparr>]\<rparr>;
                     failed = (\<lambda>e. step1\<lparr>step_status := ''failed'',
                                           step_error := Some (str_of_error e),
                                           step_completed_at := Some (clock mgr')\<rparr>)
                 in case outcome of
                      Inl e \<Rightarrow> (st1\<lparr>ex_steps := (ex_steps st)[i := failed e]\<rparr>, Some e)
                    | Inr response \<Rightarrow>
                        if success response then
                          (st1\<lparr>ex_steps := (ex_steps st)
                                  [i := step1\<lparr>step_status := ''completed'',
                                              result := resp_data response,
                                              step_completed_at := Some (clock mgr')\<rparr>],
                               results := AList.update (step_id step1) (resp_data response)
                                            (results st),
                               completed_steps := set_add (step_id step1) (completed_steps st)\<rparr>,
                           None)
                        else
                          (let e = step_failed_error (resp_error response)
                           in (st1\<lparr>ex_steps := (ex_steps st)[i := failed e]\<rparr>, Some e))))
      else (st, None))"

text \<open>One pass of \<^verbatim>\<open>for step in workflow.steps\<close>, over the positions still to visit.\<close>

fun scan_steps :: "nat list \<Rightarrow> exec_state \<Rightarrow> exec_state \<times> error option" where
  "scan_steps [] st = (st, None)"
| "scan_steps (i # rest) st =
     (case run_step i st of
        (st', Some e) \<Rightarrow> (st', Some e)
      | (st', None) \<Rightarrow> scan_steps rest st')"

text \<open>
  The loop \<^verbatim>\<open>while len(completed_steps) < len(workflow.steps)\<close>. Nothing bounds the
  number of its iterations, so the model takes a bound \<open>fuel\<close> on them and answers
  \<open>OutOfFuel\<close> when the loop would start one more. The loop does not return exactly when
  the answer is \<open>OutOfFuel\<close> for every bound.
\<close>

datatype loop_exit = LoopDone | LoopRaised error | OutOfFuel

fun workflow_loop :: "nat \<Rightarrow> exec_state \<Rightarrow> exec_state \<times> loop_exit" where
  "workflow_loop fuel st =
     (if length (completed_steps st) < length (ex_steps st) then
        (case fuel of
           0 \<Rightarrow> (st, OutOfFuel)
         | Suc fuel' \<Rightarrow>
             (case scan_steps [0..<length (ex_steps st)] st of
                (st', Some e) \<Rightarrow> (st', LoopRaised e)
              | (st', None) \<Rightarrow>
                  if length (completed_steps st') = 0
                  then (st', LoopRaised deadlock_error)
                  else workflow_loop fuel' (st'\<lparr>ex_mgr := tick (ex_mgr st')\<rparr>)))
      else (st, LoopDone))"

text \<open>
  \<^verbatim>\<open>execute_workflow\<close>. The workflow object is the one stored in \<^verbatim>\<open>self.workflows\<close>;
  the model writes it back when the call ends. The answer is the manager, the
  dispatches made, and how the call ended: the result map, an exception, or no end
  within the bound.
\<close>

datatype call_exit = Returned "(string \<times> pyval option) list" | Raises error | NoReturn

definition store_workflow :: "exec_state \<Rightarrow> string \<Rightarrow> Workflow \<Rightarrow> AgentManager" where
  "store_workflow st wid workflow =
     (ex_mgr st)\<lparr>workflows :=
        AList.update wid (workflow\<lparr>steps := ex_steps st\<rparr>) (workflows (ex_mgr st))\<rparr>"

definition execute_workflow ::
  "nat \<Rightarrow> AgentManager \<Rightarrow> string \<Rightarrow> AgentManager \<times> dispatch list \<times> call_exit" where
  "execute_workflow fuel mgr wid =
     (case map_of (workflows mgr) wid of
        None \<Rightarrow>
          (mgr, [], Raises (ResourceNotFoundError (''Workflow '' @ wid @ '' not found'')
                             ''workflow'' wid))
      | Some workflow \<Rightarrow>
          (let workflow1 = workflow\<lparr>wf_status := ''running'', started_at := Some (clock mgr)\<rparr>;
               st0 = \<lparr>ex_mgr = mgr, ex_steps = steps workflow1, results = [],
                      completed_steps = [], dispatched = []\<rparr>
           in case workflow_loop fuel st0 of
                (st, LoopDone) \<Rightarrow>
                  (store_workflow st wid
                     (workflow1\<lparr>wf_status := ''completed'',
                                completed_at := Some (clock (ex_mgr st))\<rparr>),
                   dispatched st, Returned (results st))
              | (st, LoopRaised e) \<Rightarrow>
                  (store_workflow st wid
                     (workflow1\<lparr>wf_status := ''failed'',
                                completed_at := Some (clock (ex_mgr st))\<rparr>),
                   dispatched st, Raises e)
              | (st, OutOfFuel) \<Rightarrow> (store_workflow st wid workflow1, dispatched st, NoReturn)))"

text \<open>
  For the statements about \<^verbatim>\<open>execute_workflow\<close>. A dispatch failed when the call raised
  or the response has \<^verbatim>\<open>success = False\<close>; \<open>dispatch_error\<close> is the exception that the
  scan then raises, and \<open>failed_steps\<close> the steps as they were at the dispatch, with the
  dispatched step marked as failed with the text of that exception.
\<close>

definition dispatch_failed :: "dispatch \<Rightarrow> bool" where
  "dispatch_failed d \<longleftrightarrow>
     (case d_outcome d of Inl e \<Rightarrow> True | Inr response \<Rightarrow> \<not> success response)"

definition dispatch_error :: "dispatch \<Rightarrow> error" where
  "dispatch_error d =
     (case d_outcome d of
        Inl e \<Rightarrow> e
      | Inr response \<Rightarrow> step_failed_error (resp_error response))"

definition failed_steps :: "dispatch \<Rightarrow> WorkflowStep list" where
  "failed_steps d =
     (d_steps d)
       [d_index d := (d_steps d ! d_index d)
          \<lparr>step_started_at := Some (d_started d),
           step_status := ''failed'',
           step_error := Some (str_of_error (dispatch_error d)),
           step_completed_at := Some (d_finished d)\<rparr>]"

text \<open>
  The invariants of the execution. \<open>same_graph\<close>: the steps carry the ids and the
  dependencies of the steps of the stored workflow, in the same order. \<open>trace_inv\<close>:
  every dispatch recorded so far was made for a step that was ready. \<open>completed_inv\<close>:
  the ids are distinct, every step whose id is in \<^verbatim>\<open>completed_steps\<close> has the status
  \<open>completed\<close>, and at every dispatch recorded so far every step named by a dependency
  of the dispatched step had the status \<open>completed\<close>.
\<close>

definition same_graph :: "WorkflowStep list \<Rightarrow> WorkflowStep list \<Rightarrow> bool" where
  "same_graph ss ss0 \<longleftrightarrow>
     map step_id ss = map step_id ss0 \<and> map dependencies ss = map dependencies ss0"

definition dispatch_ready :: "dispatch \<Rightarrow> bool" where
  "dispatch_ready d \<longleftrightarrow>
     d_index d < length (d_steps d) \<and> step_ready (d_completed d) (d_steps d ! d_index d)"

definition deps_completed :: "dispatch \<Rightarrow> bool" where
  "deps_completed d \<longleftrightarrow>
     list_all (\<lambda>dep. list_all (\<lambda>s. step_id s \<noteq> dep \<or> step_status s = ''completed'') (d_steps d))
       (dependencies (d_steps d ! d_index d))"

definition trace_inv :: "WorkflowStep list \<Rightarrow> exec_state \<Rightarrow> bool" where
  "trace_inv ss0 st \<longleftrightarrow>
     same_graph (ex_steps st) ss0 \<and>
     list_all (\<lambda>d. dispatch_ready d \<and> same_graph (d_steps d) ss0) (dispatched st)"

definition completed_inv :: "exec_state \<Rightarrow> bool" where
  "completed_inv st \<longleftrightarrow>
     distinct (map step_id (ex_steps st)) \<and>
     list_all (\<lambda>s. step_id s \<notin> set (completed_steps st) \<or> step_status s = ''completed'')
       (ex_steps st) \<and>
     list_all deps_completed (dispatched st)"

text \<open>
  \<open>clean\<close>: no dispatch recorded so far failed. \<open>failure_exit\<close>: the last dispatch
  failed and no earlier one, the exception is the one of that dispatch, and the steps
  are those of that dispatch with the dispatched step marked as failed.
\<close>

definition clean :: "exec_state \<Rightarrow> bool" where
  "clean st \<longleftrightarrow> list_all (\<lambda>d. \<not> dispatch_failed d) (dispatched st)"

definition failure_exit :: "exec_state \<Rightarrow> error \<Rightarrow> bool" where
  "failure_exit st e \<longleftrightarrow>
     dispatched st \<noteq> [] \<and>
     list_all (\<lambda>d. \<not> dispatch_failed d) (butlast (dispatched st)) \<and>
     dispatch_failed (last (dispatched st)) \<and>
     e = dispatch_error (last (dispatched st)) \<and>
     ex_steps st = failed_steps (last (dispatched st))"

section \<open>Example agents, managers and workflows\<close>

text \<open>
  An agent that answers every request at once: with a failure response when the query
  is the string \<open>fail\<close>, with a success response otherwise. Its health check reports
  the given status.
\<close>

definition demo_agent :: "string \<Rightarrow> string \<Rightarrow> BaseAgent" where
  "demo_agent aid health =
     \<lparr>config_agent_id = aid, config_timeout = 60,
      process_request = (\<lambda>now query context timeout.
         if query = PStr ''fail''
         then Responded \<lparr>success = False, resp_data = None, resp_error = Some ''boom'',
                          resp_agent_id = aid\<rparr>
         else Responded \<lparr>success = True, resp_data = Some (PDict [(''echo'', query)]),
                          resp_error = None, resp_agent_id = aid\<rparr>),
      health_check = (\<lambda>now. Inr [(''agent_id'', PStr aid), (''status'', PStr health)]),
      get_capabilities = (\<lambda>now. Inr [(''agent_id'', PStr aid),
                                       (''supported_operations'', PList [PStr ''analyze''])]),
      shutdown = (\<lambda>now. None)\<rparr>"

definition step_def :: "string \<Rightarrow> string \<Rightarrow> pyval list \<Rightarrow> (string \<times> pyval) list" where
  "step_def agent_type task_name deps =
     [(''agent'', PStr agent_type), (''task'', PStr task_name), (''dependencies'', PList deps)]"

text \<open>A stand-in for \<^verbatim>\<open>uuid4\<close>: the \<open>k\<close>-th id is \<open>u\<close> followed by \<open>k\<close> in decimal.\<close>

definition demo_uuid :: "nat \<Rightarrow> string" where
  "demo_uuid k = CHR ''u'' # show_nat k"

text \<open>A bus with three registered endpoints and empty queues, and a message.\<close>

definition bus3 :: "unit CommunicationManager" where
  "bus3 = \<lparr>cm_agents = [(''a1'', ()), (''a2'', ()), (''a3'', ())],
           message_queues = [(''a1'', []), (''a2'', []), (''a3'', [])],
           subscriptions = [], cm_running = True\<rparr>"

definition memo :: "string option \<Rightarrow> Message" where
  "memo r = \<lparr>message_id = ''m1'', sender_id = ''a1'', recipient_id = r,
            message_type = COORDINATION_REQUEST, priority = NORMAL, timestamp = 0,
            correlation_id = None, payload = PDict [], metadata = PDict []\<rparr>"

text \<open>
  A bus on which \<open>a1\<close> is registered, and on which first \<open>ghost\<close>, which never
  registered, and then \<open>a1\<close> subscribed to the topic \<open>alerts\<close>.
\<close>

definition ghost_bus :: "unit CommunicationManager" where
  "ghost_bus =
     subscribe_to_event
       (subscribe_to_event
          (case cm_register_agent cm_init ''a1'' () of Inr cm \<Rightarrow> cm | Inl e \<Rightarrow> cm_init)
          ''ghost'' ''alerts'')
       ''a1'' ''alerts''"

text \<open>
  A manager with the single agent \<open>a1\<close> in category \<open>x\<close>, whose health check reports
  \<open>unhealthy\<close>, after one cycle of the health monitor.
\<close>

definition mgr_sick :: AgentManager where
  "mgr_sick =
     health_check_cycle (fst (register_agent manager_init (demo_agent ''a1'' ''unhealthy'') ''x''))"

text \<open>A manager with a healthy agent \<open>a1\<close> and an unhealthy agent \<open>a2\<close> in category \<open>x\<close>.\<close>

definition mgr_two :: AgentManager where
  "mgr_two =
     fst (register_agent
            (fst (register_agent manager_init (demo_agent ''a1'' ''healthy'') ''x''))
            (demo_agent ''a2'' ''unhealthy'') ''x'')"

text \<open>
  A workflow definition of three steps for category \<open>x\<close>: the second declares the
  dependencies \<open>0\<close>, \<open>1\<close>, \<open>True\<close> and \<open>q\<close>, the third \<open>1\<close>, \<open>True\<close>, \<open>-1\<close> and \<open>7\<close>. The
  second step fails when it is run by a \<open>demo_agent\<close>.
\<close>

definition demo_defs :: "(string \<times> pyval) list list" where
  "demo_defs =
     [step_def ''x'' ''ok'' [],
      step_def ''x'' ''fail'' [PInt 0, PInt 1, PBool True, PStr ''q''],
      step_def ''x'' ''ok'' [PInt 1, PBool True, PInt (- 1), PInt 7]]"

text \<open>
  A manager with the agent \<open>a1\<close> in category \<open>x\<close> and the workflow created from
  \<open>demo_defs\<close>, stored under the id \<open>u3\<close>.
\<close>

definition mgr_demo :: AgentManager where
  "mgr_demo =
     fst (create_workflow demo_uuid
            (fst (register_agent manager_init (demo_agent ''a1'' ''healthy'') ''x''))
            demo_defs)"

text \<open>
  The same manager with a workflow of two independent steps, stored under the id
  \<open>u2\<close>: the first step is for category \<open>y\<close>, in which no agent is registered, the
  second for category \<open>x\<close>. \<open>mgr_retry\<close> is the manager after a first execution of
  that workflow.
\<close>

definition retry_defs :: "(string \<times> pyval) list list" where
  "retry_defs = [step_def ''y'' ''ok'' [], step_def ''x'' ''ok'' []]"

definition mgr_retry0 :: AgentManager where
  "mgr_retry0 =
     fst (create_workflow demo_uuid
            (fst (register_agent manager_init (demo_agent ''a1'' ''healthy'') ''x''))
            retry_defs)"

definition mgr_retry :: AgentManager where
  "mgr_retry = fst (execute_workflow 1 mgr_retry0 ''u2'')"

section \<open>Properties of the message bus\<close>

lemma queue_put_Inr:
  "k \<in> fst ` set qs \<Longrightarrow>
   \<exists>qs'. queue_put qs k m = Inr qs' \<and> map fst qs' = map fst qs \<and>
     (\<forall>a. map_of qs' a = (if a = k then map_option (\<lambda>q. q @ [m]) (map_of qs a) else map_of qs a))"
  unfolding queue_put_def
  by (cases "map_of qs k")
     (auto simp: update_conv' update_keys map_of_eq_None_iff image_iff)

lemma broadcast_ok:
  "distinct ks \<Longrightarrow> set ks \<subseteq> fst ` set qs \<Longrightarrow>
   \<exists>qs'. broadcast ks qs m = (qs', None) \<and> map fst qs' = map fst qs \<and>
     (\<forall>a. map_of qs' a =
        (if a \<in> set ks
         then map_option (\<lambda>q. q @ [m\<lparr>recipient_id := Some a\<rparr>]) (map_of qs a)
         else map_of qs a))"
proof (induction ks arbitrary: qs)
  case Nil
  then show ?case by simp
next
  case (Cons k ks)
  from Cons.prems have k: "k \<in> fst ` set qs" by simp
  from queue_put_Inr [OF k, of "m\<lparr>recipient_id := Some k\<rparr>"]
  obtain q1 where q1: "queue_put qs k (m\<lparr>recipient_id := Some k\<rparr>) = Inr q1"
    "map fst q1 = map fst qs"
    "\<forall>a. map_of q1 a =
       (if a = k then map_option (\<lambda>q. q @ [m\<lparr>recipient_id := Some k\<rparr>]) (map_of qs a)
        else map_of qs a)"
    by blast
  have "fst ` set q1 = fst ` set qs" using q1(2) by (metis set_map)
  with Cons.prems have "distinct ks" "set ks \<subseteq> fst ` set q1" by auto
  from Cons.IH [OF this]
  obtain q2 where q2: "broadcast ks q1 m = (q2, None)" "map fst q2 = map fst q1"
    "\<forall>a. map_of q2 a =
       (if a \<in> set ks then map_option (\<lambda>q. q @ [m\<lparr>recipient_id := Some a\<rparr>]) (map_of q1 a)
        else map_of q1 a)"
    by blast
  have "k \<notin> set ks" using Cons.prems by simp
  then show ?case using q1 q2 by auto
qed

text \<open>
  The same for the delivery loop of \<^verbatim>\<open>publish_event\<close>, when every subscriber has a
  queue: one copy for each subscriber other than the sender, nothing for the sender.
\<close>

lemma publish_loop_ok:
  "distinct ks \<Longrightarrow> set ks \<subseteq> fst ` set qs \<Longrightarrow>
   \<exists>qs'. publish_loop ks sender qs m = (qs', None) \<and> map fst qs' = map fst qs \<and>
     (\<forall>a. map_of qs' a =
        (if a \<in> set ks \<and> a \<noteq> sender
         then map_option (\<lambda>q. q @ [m\<lparr>recipient_id := Some a\<rparr>]) (map_of qs a)
         else map_of qs a))"
proof (induction ks arbitrary: qs)
  case Nil
  then show ?case by simp
next
  case (Cons k ks)
  show ?case
  proof (cases "k = sender")
    case True
    from Cons.prems have "distinct ks" "set ks \<subseteq> fst ` set qs" by auto
    from Cons.IH [OF this] True show ?thesis by auto
  next
    case False
    from Cons.prems have k: "k \<in> fst ` set qs" by simp
    from queue_put_Inr [OF k, of "m\<lparr>recipient_id := Some k\<rparr>"]
    obtain q1 where q1: "queue_put qs k (m\<lparr>recipient_id := Some k\<rparr>) = Inr q1"
      "map fst q1 = map fst qs"
      "\<forall>a. map_of q1 a =
         (if a = k then map_option (\<lambda>q. q @ [m\<lparr>recipient_id := Some k\<rparr>]) (map_of qs a)
          else map_of qs a)"
      by blast
    have "fst ` set q1 = fst ` set qs" using q1(2) by (metis set_map)
    with Cons.prems have "distinct ks" "set ks \<subseteq> fst ` set q1" by auto
    from Cons.IH [OF this]
    obtain q2 where q2: "publish_loop ks sender q1 m = (q2, None)" "map fst q2 = map fst q1"
      "\<forall>a. map_of q2 a =
         (if a \<in> set ks \<and> a \<noteq> sender
          then map_option (\<lambda>q. q @ [m\<lparr>recipient_id := Some a\<rparr>]) (map_of q1 a)
          else map_of q1 a)"
      by blast
    have "k \<notin> set ks" using Cons.prems by simp
    then show ?thesis using q1 q2 False by auto
  qed
qed

lemma publish_event_delivers:
  assumes "map_of (subscriptions cm) event_type = Some subscribers"
    and "distinct subscribers"
    and "set subscribers \<subseteq> set (dict_keys (message_queues cm))"
  shows "\<exists>qs'. publish_event cm event_type data sender mid now
                 = (cm\<lparr>message_queues := qs'\<rparr>, None) \<and>
           (\<forall>a. map_of qs' a =
              (if a \<in> set subscribers \<and> a \<noteq> sender
               then map_option
                      (\<lambda>q. q @ [(event_message event_type data sender mid now)
                                   \<lparr>recipient_id := Some a\<rparr>])
                      (map_of (message_queues cm) a)
               else map_of (message_queues cm) a))"
proof -
  from assms(3) have s: "set subscribers \<subseteq> fst ` set (message_queues cm)"
    by (simp add: dict_keys_def)
  from publish_loop_ok [OF assms(2) s, of sender "event_message event_type data sender mid now"]
  show ?thesis using assms(1) by (auto simp: publish_event_def)
qed

lemma publish_event_no_subscription:
  "map_of (subscriptions cm) event_type = None \<Longrightarrow>
   publish_event cm event_type data sender mid now = (cm, None)"
  by (simp add: publish_event_def)

subsection \<open>The bus invariant is kept by the operations of the bus\<close>

lemma comm_wf_init: "comm_wf cm_init"
  by (simp add: comm_wf_def cm_init_def dict_keys_def)

lemma comm_wf_register:
  assumes "comm_wf cm" and "cm_register_agent cm agent_id handler = Inr cm'"
  shows "comm_wf cm'"
proof -
  from assms(2) have cm': "cm' = cm\<lparr>cm_agents := AList.update agent_id handler (cm_agents cm),
                                     message_queues := AList.update agent_id [] (message_queues cm)\<rparr>"
    and new: "agent_id \<notin> set (map fst (cm_agents cm))"
    by (auto simp: cm_register_agent_def dict_keys_def split: if_splits)
  have "set (map fst (AList.update agent_id [] (message_queues cm)))
          = insert agent_id (set (map fst (message_queues cm)))"
    by (auto simp: update_keys)
  then show ?thesis
    using assms(1) new unfolding cm' comm_wf_def dict_keys_def
    by (auto simp: update_keys)
qed

lemma comm_wf_unregister:
  assumes "comm_wf cm"
  shows "comm_wf (cm_unregister_agent cm agent_id)"
proof -
  have "set (map fst (AList.delete agent_id (cm_agents cm)))
          \<subseteq> set (map fst (AList.delete agent_id (message_queues cm)))"
    using assms unfolding comm_wf_def dict_keys_def delete_keys by auto
  moreover have "distinct (map fst (AList.delete agent_id (cm_agents cm)))"
    using assms unfolding comm_wf_def dict_keys_def delete_keys by (simp add: distinct_removeAll)
  ultimately show ?thesis
    using assms unfolding comm_wf_def cm_unregister_agent_def dict_keys_def by simp
qed

lemma comm_wf_subscribe: "comm_wf cm \<Longrightarrow> comm_wf (subscribe_to_event cm agent_id event_type)"
  by (simp add: comm_wf_def subscribe_to_event_def Let_def)

lemma comm_wf_unsubscribe:
  "comm_wf cm \<Longrightarrow> comm_wf (unsubscribe_from_event cm agent_id event_type)"
  by (simp add: comm_wf_def unsubscribe_from_event_def Let_def split: option.splits)

lemma queue_put_keys: "queue_put qs k m = Inr qs' \<Longrightarrow> map fst qs' = map fst qs"
proof -
  assume a: "queue_put qs k m = Inr qs'"
  then obtain q where q: "map_of qs k = Some q" and qs': "qs' = AList.update k (q @ [m]) qs"
    by (auto simp: queue_put_def split: option.splits)
  from q have "k \<in> set (map fst qs)" by (metis map_of_eq_None_iff option.distinct(1) set_map)
  then show ?thesis unfolding qs' by (simp add: update_keys)
qed

lemma broadcast_keys: "broadcast ks qs m = (qs', r) \<Longrightarrow> map fst qs' = map fst qs"
proof (induction ks arbitrary: qs)
  case Nil
  then show ?case by simp
next
  case (Cons k ks)
  then show ?case
    by (auto split: sum.splits dest: queue_put_keys)
qed

lemma publish_loop_keys: "publish_loop ks sender qs m = (qs', r) \<Longrightarrow> map fst qs' = map fst qs"
proof (induction ks arbitrary: qs)
  case Nil
  then show ?case by simp
next
  case (Cons k ks)
  then show ?case
    by (auto split: sum.splits if_splits dest: queue_put_keys)
qed

lemma send_message_keys:
  "cm_agents (fst (send_message cm m)) = cm_agents cm \<and>
   map fst (message_queues (fst (send_message cm m))) = map fst (message_queues cm)"
  by (auto simp: send_message_def Let_def split: sum.splits prod.splits option.splits
           dest: queue_put_keys broadcast_keys)

lemma comm_wf_send: "comm_wf cm \<Longrightarrow> comm_wf (fst (send_message cm m))"
  unfolding comm_wf_def dict_keys_def by (simp add: send_message_keys)

lemma publish_event_keys:
  "cm_agents (fst (publish_event cm event_type data sender mid now)) = cm_agents cm \<and>
   map fst (message_queues (fst (publish_event cm event_type data sender mid now)))
     = map fst (message_queues cm)"
  by (auto simp: publish_event_def split: option.splits prod.splits dest: publish_loop_keys)

lemma comm_wf_publish:
  "comm_wf cm \<Longrightarrow> comm_wf (fst (publish_event cm event_type data sender mid now))"
  unfolding comm_wf_def dict_keys_def by (simp add: publish_event_keys)

subsection \<open>Claim C7\<close>

text \<open>
  C7, as stated, fails for the second half: a message whose \<^verbatim>\<open>recipient_id\<close> is set to
  the empty string names no registered agent, yet it is broadcast, because the code
  tests the truthiness of \<^verbatim>\<open>recipient_id\<close>. On the bus with the endpoints \<open>a1\<close>, \<open>a2\<close>,
  \<open>a3\<close> such a message is put on the queues (here that of \<open>a2\<close>) and the answer is true.
\<close>

theorem send_message_empty_recipient_counterexample:
  "recipient_id (memo (Some [])) = Some [] \<and>
   [] \<notin> set (dict_keys (cm_agents bus3)) \<and>
   snd (send_message bus3 (memo (Some []))) = True \<and>
   map_of (message_queues (fst (send_message bus3 (memo (Some []))))) ''a2''
     = Some [memo (Some ''a2'')]"
  by (simp add: send_message_def truthy_str_def bus3_def memo_def dict_keys_def queue_put_def)

text \<open>
  C7, amended: on a bus where every registered agent has its queue, \<^verbatim>\<open>send_message\<close> on
  a message whose \<^verbatim>\<open>recipient_id\<close> is unset or the empty string returns true and appends
  exactly one copy of the message, its \<^verbatim>\<open>recipient_id\<close> rewritten to the agent's id, to
  the queue of every registered agent, changing no other queue and nothing else; with
  a non-empty \<^verbatim>\<open>recipient_id\<close> that names no registered agent it changes nothing and
  returns false.
\<close>

theorem send_message_broadcast_and_unknown:
  "comm_wf cm \<Longrightarrow>
   ((recipient_id m = None \<or> recipient_id m = Some []) \<longrightarrow>
      snd (send_message cm m) = True \<and>
      cm_agents (fst (send_message cm m)) = cm_agents cm \<and>
      subscriptions (fst (send_message cm m)) = subscriptions cm \<and>
      dict_keys (message_queues (fst (send_message cm m))) = dict_keys (message_queues cm) \<and>
      (\<forall>a. map_of (message_queues (fst (send_message cm m))) a =
         (if a \<in> set (dict_keys (cm_agents cm))
          then map_option (\<lambda>q. q @ [m\<lparr>recipient_id := Some a\<rparr>]) (map_of (message_queues cm) a)
          else map_of (message_queues cm) a))) \<and>
   (\<forall>r. recipient_id m = Some r \<and> r \<noteq> [] \<and> r \<notin> set (dict_keys (cm_agents cm)) \<longrightarrow>
      send_message cm m = (cm, False))"
proof -
  assume wf: "comm_wf cm"
  then have d: "distinct (dict_keys (cm_agents cm))"
    and s: "set (dict_keys (cm_agents cm)) \<subseteq> fst ` set (message_queues cm)"
    by (simp_all add: comm_wf_def dict_keys_def)
  from broadcast_ok [OF d s, of m]
  obtain qs' where b: "broadcast (dict_keys (cm_agents cm)) (message_queues cm) m = (qs', None)"
    "map fst qs' = map fst (message_queues cm)"
    "\<forall>a. map_of qs' a =
        (if a \<in> set (dict_keys (cm_agents cm))
         then map_option (\<lambda>q. q @ [m\<lparr>recipient_id := Some a\<rparr>]) (map_of (message_queues cm) a)
         else map_of (message_queues cm) a)"
    by blast
  have "\<not> truthy_str (recipient_id m) \<Longrightarrow> send_message cm m = (cm\<lparr>message_queues := qs'\<rparr>, True)"
    by (simp add: send_message_def b(1))
  moreover have "recipient_id m = None \<or> recipient_id m = Some [] \<Longrightarrow> \<not> truthy_str (recipient_id m)"
    by (auto simp: truthy_str_def)
  ultimately show ?thesis using b(2,3)
    by (auto simp: dict_keys_def send_message_def truthy_str_def)
qed

theorem send_message_broadcast_and_unknown_witness:
  "comm_wf bus3 \<and>
   snd (send_message bus3 (memo None)) = True \<and>
   map_of (message_queues (fst (send_message bus3 (memo None)))) ''a3'' = Some [memo (Some ''a3'')] \<and>
   send_message bus3 (memo (Some ''zz'')) = (bus3, False)"
proof -
  have wf: "comm_wf bus3" by (simp add: comm_wf_def bus3_def dict_keys_def)
  from send_message_broadcast_and_unknown [OF wf, of "memo None"]
       send_message_broadcast_and_unknown [OF wf, of "memo (Some ''zz'')"]
  show ?thesis using wf by (simp add: bus3_def memo_def dict_keys_def)
qed

subsection \<open>Claim C9\<close>

text \<open>
  C9: a broadcast reaches every registered endpoint, the sender included, and
  \<^verbatim>\<open>publish_event\<close> on a topic without subscription entry changes nothing (see
  \<open>publish_event_no_subscription\<close> above).
  But \<^verbatim>\<open>publish_event\<close> does not deliver to every subscriber other than the sender:
  \<^verbatim>\<open>subscribe_to_event\<close> accepts an id that was never registered, and the delivery loop
  then raises \<^verbatim>\<open>KeyError\<close> at that subscriber. On \<open>ghost_bus\<close> the subscribers of
  \<open>alerts\<close> are \<open>ghost\<close> and \<open>a1\<close>; publishing from \<open>s0\<close> raises at \<open>ghost\<close>, and the
  registered subscriber \<open>a1\<close>, which is not the sender, gets no copy.
\<close>

theorem publish_event_unregistered_subscriber:
  "map_of (subscriptions ghost_bus) ''alerts'' = Some [''ghost'', ''a1''] \<and>
   dict_keys (cm_agents ghost_bus) = [''a1''] \<and>
   publish_event ghost_bus ''alerts'' (PStr ''hot'') ''s0'' ''m7'' 3
     = (ghost_bus, Some (KeyError ''ghost'')) \<and>
   map_of (message_queues (fst (publish_event ghost_bus ''alerts'' (PStr ''hot'') ''s0'' ''m7'' 3)))
     ''a1'' = Some []"
  by (simp add: ghost_bus_def cm_register_agent_def cm_init_def subscribe_to_event_def
        dict_keys_def set_add_def publish_event_def queue_put_def)

section \<open>Properties of the registry\<close>

subsection \<open>Claim C4\<close>

lemma mgr_sick_agents:
  "agent_types mgr_sick = [(''x'', [''a1''])] \<and>
   map (\<lambda>kv. (fst kv, reg_status (snd kv))) (agents mgr_sick) = [(''a1'', ''error'')]"
  by (simp add: mgr_sick_def health_check_cycle_def register_agent_def manager_init_def
        demo_agent_def dict_keys_def tick_def set_add_def cm_register_agent_def cm_init_def
        check_registration_def Let_def)

text \<open>
  C4, as stated, fails: \<^verbatim>\<open>query_agent\<close> never reads the status of a registration.
  In \<open>mgr_sick\<close> the only member of category \<open>x\<close> has the status \<open>error\<close>, so the
  category has no active member; the query does not fail, it is answered by that member.
\<close>

theorem query_agent_error_status_counterexample:
  "agent_types mgr_sick = [(''x'', [''a1''])] \<and>
   map (\<lambda>kv. (fst kv, reg_status (snd kv))) (agents mgr_sick) = [(''a1'', ''error'')] \<and>
   snd (query_agent mgr_sick ''x'' (PStr ''ok'') None None)
     = Inr \<lparr>success = True, resp_data = Some (PDict [(''echo'', PStr ''ok'')]),
            resp_error = None, resp_agent_id = ''a1''\<rparr>"
  by (simp add: mgr_sick_def health_check_cycle_def register_agent_def manager_init_def
        demo_agent_def dict_keys_def tick_def set_add_def cm_register_agent_def cm_init_def
        check_registration_def Let_def query_agent_def select_agent_def)

text \<open>
  C4, amended: \<^verbatim>\<open>query_agent\<close> fails with the \<^verbatim>\<open>ResourceNotFoundError\<close> of the availability
  test if and only if the category has no registered member (no index entry, or an
  empty one), whatever the status of the registrations. When the category has members,
  one of them is selected (the first in the iteration order of the set), whatever its
  status, and the answer of the call is the outcome of its \<^verbatim>\<open>process_request\<close> under the
  deadline: the response, an \<^verbatim>\<open>AgentTimeoutError\<close>, or the exception of the agent.
\<close>

theorem query_agent_registered_members:
  "(snd (query_agent mgr t q c timeout) = Inl (no_agents_error t)
      \<longleftrightarrow> map_of (agent_types mgr) t = None \<or> map_of (agent_types mgr) t = Some []) \<and>
   (\<forall>members. map_of (agent_types mgr) t = Some members \<and> members \<noteq> [] \<longrightarrow>
      (\<exists>a \<in> set members. select_agent mgr t = Inr a \<and>
         (\<forall>reg. map_of (agents mgr) a = Some reg \<longrightarrow>
            snd (query_agent mgr t q c timeout) =
              (case process_request (agent_instance reg) (clock mgr) q c
                      (case timeout of None \<Rightarrow> config_timeout (agent_instance reg) | Some d \<Rightarrow> d) of
                 Responded r \<Rightarrow> Inr r
               | TimedOut \<Rightarrow>
                   Inl (timeout_error
                          (case timeout of None \<Rightarrow> config_timeout (agent_instance reg) | Some d \<Rightarrow> d)
                          a t)
               | Raised exc \<Rightarrow> Inl (AgentRaised exc)))))"
  by (auto simp: query_agent_def select_agent_def no_agents_error_def timeout_error_def Let_def
           split: option.splits list.splits process_outcome.splits)

theorem query_agent_registered_members_witness:
  "map_of (agent_types mgr_sick) ''x'' = Some [''a1''] \<and>
   snd (query_agent mgr_sick ''x'' (PStr ''ok'') None None) \<noteq> Inl (no_agents_error ''x'') \<and>
   select_agent mgr_sick ''x'' = Inr ''a1'' \<and>
   snd (query_agent mgr_sick ''y'' (PStr ''ok'') None None) = Inl (no_agents_error ''y'')"
proof -
  have t: "agent_types mgr_sick = [(''x'', [''a1''])]" using mgr_sick_agents by simp
  from query_agent_registered_members [of mgr_sick "''x''" "PStr ''ok''" None None]
       query_agent_registered_members [of mgr_sick "''y''" "PStr ''ok''" None None]
  show ?thesis by (auto simp: t)
qed

subsection \<open>Claim C6\<close>

lemma health_check_items_length: "length (health_check_items xs now) = length xs"
  by (induction xs now rule: health_check_items.induct) simp_all

lemma health_check_items_nth:
  "i < length xs \<Longrightarrow>
   health_check_items xs now ! i = (fst (xs ! i), check_registration (now + i) (snd (xs ! i)))"
proof (induction xs now arbitrary: i rule: health_check_items.induct)
  case (1 now)
  then show ?case by simp
next
  case (2 agent_id registration rest now)
  then show ?case by (cases i) simp_all
qed

lemma check_registration_cases:
  "check_registration now reg =
     (if reports_healthy (agent_instance reg) now
      then reg\<lparr>reg_status := ''active'', last_heartbeat := Suc now\<rparr>
      else reg\<lparr>reg_status := ''error''\<rparr>)"
  by (auto simp: check_registration_def reports_healthy_def split: sum.splits option.splits)

text \<open>
  C6: in a cycle of the health monitor, the registration at any position \<open>i\<close> of
  \<^verbatim>\<open>self.agents\<close> keeps its key and becomes: the same registration with status
  \<open>active\<close> and \<^verbatim>\<open>last_heartbeat\<close> set to the time at which its health check returned, when
  that check answers \<open>healthy\<close>; the same registration with status \<open>error\<close> and nothing
  else changed (so the old \<^verbatim>\<open>last_heartbeat\<close>), when the check answers anything else or
  raises. The new registration depends on the old one and on its own health check
  only, so the failure of one agent changes no other registration; no registration is
  added or removed.
\<close>

theorem health_check_cycle_effect:
  "i < length (agents mgr) \<Longrightarrow> agents mgr ! i = (aid, reg) \<Longrightarrow>
   length (agents (health_check_cycle mgr)) = length (agents mgr) \<and>
   agent_types (health_check_cycle mgr) = agent_types mgr \<and>
   agents (health_check_cycle mgr) ! i =
     (aid,
      if reports_healthy (agent_instance reg) (clock mgr + i)
      then reg\<lparr>reg_status := ''active'', last_heartbeat := Suc (clock mgr + i)\<rparr>
      else reg\<lparr>reg_status := ''error''\<rparr>)"
  by (simp add: health_check_cycle_def health_check_items_length health_check_items_nth
        check_registration_cases)

lemma mgr_two_agents:
  "agents mgr_two =
     [(''a1'', \<lparr>reg_agent_id = ''a1'', reg_agent_type = ''x'',
                agent_instance = demo_agent ''a1'' ''healthy'', capabilities = [''analyze''],
                registered_at = 1, last_heartbeat = 1, reg_status = ''active''\<rparr>),
      (''a2'', \<lparr>reg_agent_id = ''a2'', reg_agent_type = ''x'',
                agent_instance = demo_agent ''a2'' ''unhealthy'', capabilities = [''analyze''],
                registered_at = 2, last_heartbeat = 2, reg_status = ''active''\<rparr>)] \<and>
   clock mgr_two = 2"
  by (simp add: mgr_two_def register_agent_def manager_init_def
        demo_agent_def dict_keys_def tick_def set_add_def cm_register_agent_def cm_init_def Let_def)

theorem health_check_cycle_effect_witness:
  "(1::nat) < length (agents mgr_two) \<and>
   fst (agents (health_check_cycle mgr_two) ! 0) = ''a1'' \<and>
   reg_status (snd (agents (health_check_cycle mgr_two) ! 0)) = ''active'' \<and>
   last_heartbeat (snd (agents (health_check_cycle mgr_two) ! 0)) = 3 \<and>
   fst (agents (health_check_cycle mgr_two) ! 1) = ''a2'' \<and>
   reg_status (snd (agents (health_check_cycle mgr_two) ! 1)) = ''error'' \<and>
   last_heartbeat (snd (agents (health_check_cycle mgr_two) ! 1)) = 2"
proof -
  have a: "agents mgr_two ! 0 = (''a1'', snd (agents mgr_two ! 0))"
          "agents mgr_two ! 1 = (''a2'', snd (agents mgr_two ! 1))"
          "(0::nat) < length (agents mgr_two)" "(1::nat) < length (agents mgr_two)"
    by (simp_all add: mgr_two_agents)
  from health_check_cycle_effect [OF a(3) a(1)] health_check_cycle_effect [OF a(4) a(2)]
  show ?thesis
    by (simp add: mgr_two_agents demo_agent_def reports_healthy_def)
qed

subsection \<open>Claim C8\<close>

lemma removeAll_only: "set xs \<subseteq> {a} \<Longrightarrow> removeAll a xs = []"
  by (induction xs) auto

lemma map_of_dict_keys:
  "k \<notin> set (dict_keys d) \<longleftrightarrow> map_of d k = None"
  by (simp add: dict_keys_def map_of_eq_None_iff)

lemma register_agent_success:
  assumes "register_agent mgr agent t = (mgr1, Inr aid)"
  shows "aid = config_agent_id agent"
    and "\<exists>reg. map_of (agents mgr1) aid = Some reg \<and> reg_agent_type reg = t"
    and "map_of (agent_types mgr1) t =
           Some (set_add aid (case map_of (agent_types mgr) t of None \<Rightarrow> [] | Some m \<Rightarrow> m))"
proof -
  show "aid = config_agent_id agent"
    using assms
    by (auto simp: register_agent_def Let_def split: if_splits sum.splits option.splits)
  show "\<exists>reg. map_of (agents mgr1) aid = Some reg \<and> reg_agent_type reg = t"
    using assms
    by (auto simp: register_agent_def Let_def tick_def update_conv'
             split: if_splits sum.splits option.splits)
  show "map_of (agent_types mgr1) t =
           Some (set_add aid (case map_of (agent_types mgr) t of None \<Rightarrow> [] | Some m \<Rightarrow> m))"
  proof (cases "map_of (agent_types mgr) t")
    case None
    then have "t \<notin> set (dict_keys (agent_types mgr))" by (simp add: map_of_dict_keys)
    with None assms show ?thesis
      by (auto simp: register_agent_def Let_def tick_def update_conv'
               split: if_splits sum.splits option.splits)
  next
    case (Some m)
    then have "t \<in> set (dict_keys (agent_types mgr))"
      using map_of_dict_keys [of t "agent_types mgr"] by auto
    with Some assms show ?thesis
      by (auto simp: register_agent_def Let_def tick_def update_conv'
               split: if_splits sum.splits option.splits)
  qed
qed

lemma unregister_agent_types:
  assumes "map_of (agents mgr) aid = Some reg"
  shows "agent_types (fst (unregister_agent mgr aid)) =
           (case map_of (agent_types mgr) (reg_agent_type reg) of
              None \<Rightarrow> agent_types mgr
            | Some members \<Rightarrow>
                if set_discard aid members = []
                then AList.delete (reg_agent_type reg) (agent_types mgr)
                else AList.update (reg_agent_type reg) (set_discard aid members) (agent_types mgr))"
  using assms
  by (simp add: unregister_agent_def Let_def tick_def split: option.splits)

text \<open>
  C8: if \<^verbatim>\<open>register_agent\<close> succeeds for an agent and a category in which no other
  agent is registered, then after \<^verbatim>\<open>unregister_agent\<close> of the id it returned (whether the
  shutdown hook of the agent returns or raises) every \<^verbatim>\<open>query_agent\<close> for that category
  fails with the \<^verbatim>\<open>ResourceNotFoundError\<close> of the availability test. And
  \<^verbatim>\<open>unregister_agent\<close> of an id that is not registered returns without changing the
  manager.
\<close>

theorem register_unregister_query:
  "(register_agent mgr agent t = (mgr1, Inr aid) \<and>
    (\<forall>members. map_of (agent_types mgr) t = Some members
        \<longrightarrow> set members \<subseteq> {config_agent_id agent})
      \<longrightarrow> snd (query_agent (fst (unregister_agent mgr1 aid)) t q c timeout)
            = Inl (no_agents_error t)) \<and>
   (unknown \<notin> set (dict_keys (agents mgr)) \<longrightarrow> unregister_agent mgr unknown = (mgr, None))"
proof (intro conjI impI)
  assume a: "register_agent mgr agent t = (mgr1, Inr aid) \<and>
    (\<forall>members. map_of (agent_types mgr) t = Some members
        \<longrightarrow> set members \<subseteq> {config_agent_id agent})"
  then have r: "register_agent mgr agent t = (mgr1, Inr aid)" by simp
  note s = register_agent_success [OF r]
  from s(2) obtain reg where reg: "map_of (agents mgr1) aid = Some reg" "reg_agent_type reg = t"
    by blast
  define m0 where "m0 = (case map_of (agent_types mgr) t of None \<Rightarrow> [] | Some m \<Rightarrow> m)"
  have "set m0 \<subseteq> {aid}"
  proof (cases "map_of (agent_types mgr) t")
    case None
    then show ?thesis by (simp add: m0_def)
  next
    case (Some m)
    with a have "set m \<subseteq> {config_agent_id agent}" by blast
    with Some s(1) show ?thesis by (simp add: m0_def)
  qed
  then have "set (set_add aid m0) \<subseteq> {aid}"
    by (auto simp: set_add_def)
  then have "set_discard aid (set_add aid m0) = []"
    unfolding set_discard_def by (rule removeAll_only)
  with s(3) have "map_of (agent_types (fst (unregister_agent mgr1 aid))) t = None"
    by (simp add: unregister_agent_types [OF reg(1)] reg(2) m0_def delete_conv')
  then show "snd (query_agent (fst (unregister_agent mgr1 aid)) t q c timeout)
               = Inl (no_agents_error t)"
    by (simp add: query_agent_def select_agent_def)
next
  assume "unknown \<notin> set (dict_keys (agents mgr))"
  then have "map_of (agents mgr) unknown = None"
    by (simp add: map_of_dict_keys)
  then show "unregister_agent mgr unknown = (mgr, None)"
    by (simp add: unregister_agent_def)
qed

theorem register_unregister_query_witness:
  "register_agent manager_init (demo_agent ''a1'' ''healthy'') ''x''
     = (fst (register_agent manager_init (demo_agent ''a1'' ''healthy'') ''x''), Inr ''a1'') \<and>
   map_of (agent_types manager_init) ''x'' = None \<and>
   snd (query_agent
          (fst (unregister_agent
                  (fst (register_agent manager_init (demo_agent ''a1'' ''healthy'') ''x''))
                  ''a1''))
          ''x'' (PStr ''ok'') None None) = Inl (no_agents_error ''x'') \<and>
   ''zz'' \<notin> set (dict_keys (agents manager_init)) \<and>
   unregister_agent manager_init ''zz'' = (manager_init, None)"
proof -
  have r: "register_agent manager_init (demo_agent ''a1'' ''healthy'') ''x''
     = (fst (register_agent manager_init (demo_agent ''a1'' ''healthy'') ''x''), Inr ''a1'')"
    by (simp add: register_agent_def manager_init_def demo_agent_def dict_keys_def tick_def
          set_add_def cm_register_agent_def cm_init_def Let_def)
  have t: "map_of (agent_types manager_init) ''x'' = None"
          "''zz'' \<notin> set (dict_keys (agents manager_init))"
    by (simp_all add: manager_init_def dict_keys_def)
  from register_unregister_query
         [of manager_init "demo_agent ''a1'' ''healthy''" "''x''"
             "fst (register_agent manager_init (demo_agent ''a1'' ''healthy'') ''x'')" "''a1''"
             "PStr ''ok''" None None "''zz''"]
  show ?thesis using r t by simp
qed

section \<open>Properties of workflow creation\<close>

lemma resolve_dependencies_eq:
  "resolve_dependencies i n ids vs =
     (map (\<lambda>v. ids ! nat (the (isinstance_int v))) (filter (valid_dependency i) vs),
      map (\<lambda>v. (i, v, n)) (filter (\<lambda>v. \<not> valid_dependency i v) vs))"
  by (induction vs) auto

lemma valid_dependency_index:
  "valid_dependency i v \<Longrightarrow> nat (the (isinstance_int v)) < i"
  by (auto simp: valid_dependency_def split: option.splits)

lemma make_step_ok:
  "step_def_ok sd \<Longrightarrow>
   \<exists>step. make_step sid sd deps = Inr step \<and> step_id step = sid \<and>
          dependencies step = deps \<and> step_status step = ''pending''"
  by (auto simp: step_def_ok_def make_step_def Let_def split: option.splits pyval.splits)

lemma make_step_fields:
  "make_step sid sd deps = Inr step \<Longrightarrow>
   step_id step = sid \<and> dependencies step = deps \<and> step_status step = ''pending''"
  by (auto simp: make_step_def Let_def split: option.splits pyval.splits)

text \<open>
  The invariant of the outer loop: the steps built so far carry the ids \<open>uuid 0\<close>,
  \<open>uuid 1\<close>, ... in order, and each of their dependencies is the id of an earlier step.
\<close>

lemma build_steps_ok:
  assumes "list_all step_def_ok defs" and "step_ids = map uuid [0..<length acc]"
  shows "\<exists>S. build_steps uuid n defs acc step_ids warns
               = (warns @ dropped_from (length acc) n defs, Inr (acc @ S)) \<and>
             length S = length defs \<and>
             (\<forall>k<length defs.
                step_id (S ! k) = uuid (length acc + k) \<and>
                step_status (S ! k) = ''pending'' \<and>
                dependencies (S ! k) =
                  map (\<lambda>v. uuid (nat (the (isinstance_int v))))
                      (filter (valid_dependency (length acc + k)) (declared_list (defs ! k))))"
  using assms
proof (induction defs arbitrary: acc step_ids warns)
  case Nil
  then show ?case by simp
next
  case (Cons sd rest)
  let ?i = "length acc"
  let ?ids = "step_ids @ [uuid ?i]"
  from Cons.prems have ok: "step_def_ok sd" and rest_ok: "list_all step_def_ok rest" by simp_all
  from ok obtain vs where vs: "declared_dependencies sd = Some vs"
    by (auto simp: step_def_ok_def)
  then have dl: "declared_list sd = vs" by (simp add: declared_list_def)
  have ids: "?ids = map uuid [0..<Suc ?i]" using Cons.prems(2) by simp
  let ?deps = "map (\<lambda>v. ?ids ! nat (the (isinstance_int v))) (filter (valid_dependency ?i) vs)"
  have deps: "?deps = map (\<lambda>v. uuid (nat (the (isinstance_int v)))) (filter (valid_dependency ?i) vs)"
  proof (rule map_cong [OF refl])
    fix v assume "v \<in> set (filter (valid_dependency ?i) vs)"
    then have "nat (the (isinstance_int v)) < ?i" by (simp add: valid_dependency_index)
    then show "?ids ! nat (the (isinstance_int v)) = uuid (nat (the (isinstance_int v)))"
      unfolding ids by (simp del: upt_Suc)
  qed
  from make_step_ok [OF ok, of "uuid ?i" ?deps]
  obtain step where step: "make_step (uuid ?i) sd ?deps = Inr step" "step_id step = uuid ?i"
    "dependencies step = ?deps" "step_status step = ''pending''" by blast
  let ?w = "map (\<lambda>v. (?i, v, n)) (filter (\<lambda>v. \<not> valid_dependency ?i v) vs)"
  have unfold: "build_steps uuid n (sd # rest) acc step_ids warns
                  = build_steps uuid n rest (acc @ [step]) ?ids (warns @ ?w)"
    by (simp add: Let_def vs resolve_dependencies_eq step(1))
  have ids': "?ids = map uuid [0..<length (acc @ [step])]" using ids by simp
  from Cons.IH [OF rest_ok ids', of "warns @ ?w"]
  obtain S where S: "build_steps uuid n rest (acc @ [step]) ?ids (warns @ ?w)
               = ((warns @ ?w) @ dropped_from (length (acc @ [step])) n rest,
                  Inr ((acc @ [step]) @ S))"
    "length S = length rest"
    "\<forall>k<length rest.
        step_id (S ! k) = uuid (length (acc @ [step]) + k) \<and>
        step_status (S ! k) = ''pending'' \<and>
        dependencies (S ! k) =
          map (\<lambda>v. uuid (nat (the (isinstance_int v))))
              (filter (valid_dependency (length (acc @ [step]) + k)) (declared_list (rest ! k)))"
    by blast
  show ?case
  proof (intro exI [of _ "step # S"] conjI allI impI)
    show "build_steps uuid n (sd # rest) acc step_ids warns
            = (warns @ dropped_from ?i n (sd # rest), Inr (acc @ step # S))"
      using unfold S(1) by (simp add: dl)
    show "length (step # S) = length (sd # rest)" using S(2) by simp
  next
    fix k assume k: "k < length (sd # rest)"
    show "step_id ((step # S) ! k) = uuid (?i + k)"
      using k S(3) step(2) by (cases k) auto
    show "step_status ((step # S) ! k) = ''pending''"
      using k S(3) step(4) by (cases k) auto
    show "dependencies ((step # S) ! k) =
            map (\<lambda>v. uuid (nat (the (isinstance_int v))))
                (filter (valid_dependency (?i + k)) (declared_list ((sd # rest) ! k)))"
      using k S(3) step(3) deps dl by (cases k) auto
  qed
qed

subsection \<open>Claim C5\<close>

text \<open>
  C5: for every workflow definition whose step definitions are well-formed, whatever
  the values declared as dependencies, \<^verbatim>\<open>create_workflow\<close> creates the workflow and stores
  it. The dependencies of the step at position \<open>i\<close> are, in the order of their
  declaration, the ids of the steps at the declared indices, for exactly those declared
  values that are integers \<open>d\<close> with \<open>0 \<le> d < i\<close> (Python counts \<^verbatim>\<open>True\<close> and
  \<^verbatim>\<open>False\<close> as the integers 1 and 0); every other declared value is dropped, with one
  warning logged for it.
\<close>

theorem create_workflow_dependencies:
  "list_all step_def_ok defs \<Longrightarrow>
   \<exists>workflow. create_workflow uuid mgr defs =
          (mgr\<lparr>log_warnings := log_warnings mgr @ dropped_from 0 (length defs) defs,
               workflows := AList.update (workflow_id workflow) workflow (workflows mgr)\<rparr>, Inr workflow) \<and>
        wf_status workflow = ''pending'' \<and>
        length (steps workflow) = length defs \<and>
        (\<forall>i<length defs.
           step_id (steps workflow ! i) = uuid i \<and>
           dependencies (steps workflow ! i) =
             map (\<lambda>v. step_id (steps workflow ! nat (the (isinstance_int v))))
                 (filter (valid_dependency i) (declared_list (defs ! i))))"
proof -
  assume ok: "list_all step_def_ok defs"
  have "[] = map uuid [0..<length ([] :: WorkflowStep list)]" by simp
  from build_steps_ok [OF ok this, of "length defs" "log_warnings mgr"]
  obtain S where S: "build_steps uuid (length defs) defs [] [] (log_warnings mgr)
               = (log_warnings mgr @ dropped_from 0 (length defs) defs, Inr S)"
    "length S = length defs"
    "\<forall>k<length defs.
        step_id (S ! k) = uuid k \<and> step_status (S ! k) = ''pending'' \<and>
        dependencies (S ! k) =
          map (\<lambda>v. uuid (nat (the (isinstance_int v))))
              (filter (valid_dependency k) (declared_list (defs ! k)))"
    by auto
  let ?workflow = "\<lparr>workflow_id = uuid (length defs), name = ''Workflow_'' @ show_nat (clock mgr),
              description = ''Generated workflow'', steps = S, wf_status = ''pending'',
              created_at = clock mgr, started_at = None, completed_at = None,
              wf_metadata = PDict []\<rparr>"
  have deps: "dependencies (S ! i) =
          map (\<lambda>v. step_id (S ! nat (the (isinstance_int v))))
              (filter (valid_dependency i) (declared_list (defs ! i)))"
    if i: "i < length defs" for i
  proof -
    have "map (\<lambda>v. uuid (nat (the (isinstance_int v))))
              (filter (valid_dependency i) (declared_list (defs ! i)))
          = map (\<lambda>v. step_id (S ! nat (the (isinstance_int v))))
              (filter (valid_dependency i) (declared_list (defs ! i)))"
    proof (rule map_cong [OF refl])
      fix v assume "v \<in> set (filter (valid_dependency i) (declared_list (defs ! i)))"
      then have "nat (the (isinstance_int v)) < i" by (simp add: valid_dependency_index)
      with i have "nat (the (isinstance_int v)) < length defs" by simp
      with S(3) show "uuid (nat (the (isinstance_int v))) = step_id (S ! nat (the (isinstance_int v)))"
        by simp
    qed
    with S(3) i show ?thesis by simp
  qed
  have ids: "\<forall>k<length defs. step_id (S ! k) = uuid k" using S(3) by simp
  show ?thesis
    by (rule exI [of _ ?workflow]) (simp add: create_workflow_def S(1) S(2) ids Let_def deps)
qed

lemma demo_defs_ok: "list_all step_def_ok demo_defs"
  by (simp add: demo_defs_def step_def_def step_def_ok_def declared_dependencies_def)

theorem create_workflow_dependencies_witness:
  "list_all step_def_ok demo_defs \<and>
   (case snd (create_workflow demo_uuid manager_init demo_defs) of
      Inl e \<Rightarrow> []
    | Inr workflow \<Rightarrow> map (\<lambda>s. (step_id s, dependencies s)) (steps workflow))
     = [(''u0'', []), (''u1'', [''u0'']), (''u2'', [''u1'', ''u1''])] \<and>
   log_warnings (fst (create_workflow demo_uuid manager_init demo_defs))
     = [(1, PInt 1, 3), (1, PBool True, 3), (1, PStr ''q'', 3), (2, PInt (- 1), 3), (2, PInt 7, 3)]"
proof -
  from create_workflow_dependencies [OF demo_defs_ok, of demo_uuid manager_init]
  obtain workflow where workflow: "create_workflow demo_uuid manager_init demo_defs =
          (manager_init\<lparr>log_warnings := log_warnings manager_init
                            @ dropped_from 0 (length demo_defs) demo_defs,
               workflows := AList.update (workflow_id workflow) workflow (workflows manager_init)\<rparr>, Inr workflow)"
    "length (steps workflow) = length demo_defs"
    "\<forall>i<length demo_defs.
           step_id (steps workflow ! i) = demo_uuid i \<and>
           dependencies (steps workflow ! i) =
             map (\<lambda>v. step_id (steps workflow ! nat (the (isinstance_int v))))
                 (filter (valid_dependency i) (declared_list (demo_defs ! i)))"
    by blast
  have len: "length demo_defs = 3" by (simp add: demo_defs_def)
  from workflow(3) len have s: "step_id (steps workflow ! 0) = ''u0''"
    "step_id (steps workflow ! Suc 0) = ''u1''" "step_id (steps workflow ! 2) = ''u2''"
    by (simp_all add: demo_uuid_def)
  have d: "declared_list (demo_defs ! 0) = []"
    "declared_list (demo_defs ! Suc 0) = [PInt 0, PInt 1, PBool True, PStr ''q'']"
    "declared_list (demo_defs ! 2) = [PInt 1, PBool True, PInt (- 1), PInt 7]"
    by (simp_all add: demo_defs_def step_def_def declared_list_def declared_dependencies_def)
  from workflow(3) len have "dependencies (steps workflow ! 0) =
      map (\<lambda>v. step_id (steps workflow ! nat (the (isinstance_int v))))
          (filter (valid_dependency 0) (declared_list (demo_defs ! 0)))"
    "dependencies (steps workflow ! Suc 0) =
      map (\<lambda>v. step_id (steps workflow ! nat (the (isinstance_int v))))
          (filter (valid_dependency (Suc 0)) (declared_list (demo_defs ! Suc 0)))"
    "dependencies (steps workflow ! 2) =
      map (\<lambda>v. step_id (steps workflow ! nat (the (isinstance_int v))))
          (filter (valid_dependency 2) (declared_list (demo_defs ! 2)))"
    by simp_all
  then have deps: "dependencies (steps workflow ! 0) = []"
    "dependencies (steps workflow ! Suc 0) = [''u0'']"
    "dependencies (steps workflow ! 2) = [''u1'', ''u1'']"
    by (simp_all add: d valid_dependency_def s)
  have "steps workflow = [steps workflow ! 0, steps workflow ! Suc 0, steps workflow ! 2]"
    using workflow(2) len by (simp add: list_eq_iff_nth_eq nth_Cons' less_Suc_eq numeral_3_eq_3 numeral_2_eq_2)
  then have "map (\<lambda>s. (step_id s, dependencies s)) (steps workflow)
               = [(''u0'', []), (''u1'', [''u0'']), (''u2'', [''u1'', ''u1''])]"
    using s deps by (metis (no_types, lifting) list.simps(8) list.simps(9))
  moreover have "dropped_from 0 (length demo_defs) demo_defs
     = [(1, PInt 1, 3), (1, PBool True, 3), (1, PStr ''q'', 3), (2, PInt (- 1), 3), (2, PInt 7, 3)]"
    unfolding len by (simp add: demo_defs_def d [unfolded demo_defs_def, simplified] valid_dependency_def)
  ultimately show ?thesis using demo_defs_ok workflow(1) by (simp add: manager_init_def)
qed

subsection \<open>Claim C10\<close>

lemma resolve_dependencies_range:
  assumes "resolve_dependencies i n (map uuid [0..<Suc i]) vs = (deps, w)"
  shows "set deps \<subseteq> uuid ` {..<i}"
proof -
  have "deps = map (\<lambda>v. map uuid [0..<Suc i] ! nat (the (isinstance_int v)))
                   (filter (valid_dependency i) vs)"
    using assms by (simp add: resolve_dependencies_eq)
  moreover have "map uuid [0..<Suc i] ! nat (the (isinstance_int v)) \<in> uuid ` {..<i}"
    if "valid_dependency i v" for v
  proof -
    from that have "nat (the (isinstance_int v)) < i" by (rule valid_dependency_index)
    then show ?thesis by (simp del: upt_Suc)
  qed
  ultimately show ?thesis by auto
qed

lemma build_steps_Inr:
  assumes "build_steps uuid n defs acc step_ids warns = (w, Inr R)"
    and "step_ids = map uuid [0..<length acc]"
  shows "\<exists>S. R = acc @ S \<and> length S = length defs \<and>
             (\<forall>k<length defs.
                step_id (S ! k) = uuid (length acc + k) \<and>
                set (dependencies (S ! k)) \<subseteq> uuid ` {..<length acc + k})"
  using assms
proof (induction defs arbitrary: acc step_ids warns)
  case Nil
  then show ?case by simp
next
  case (Cons sd rest)
  let ?i = "length acc"
  let ?ids = "step_ids @ [uuid ?i]"
  have ids: "?ids = map uuid [0..<Suc ?i]" using Cons.prems(2) by simp
  from Cons.prems(1) obtain vs where vs: "declared_dependencies sd = Some vs"
    by (auto simp: Let_def split: option.splits)
  obtain deps nw where r: "resolve_dependencies ?i n ?ids vs = (deps, nw)"
    by (cases "resolve_dependencies ?i n ?ids vs")
  from Cons.prems(1) vs r obtain step where step: "make_step (uuid ?i) sd deps = Inr step"
    by (auto simp: Let_def split: sum.splits)
  from Cons.prems(1) vs r step
  have rec: "build_steps uuid n rest (acc @ [step]) ?ids (warns @ nw) = (w, Inr R)"
    by (simp add: Let_def)
  have ids': "?ids = map uuid [0..<length (acc @ [step])]" using ids by simp
  from Cons.IH [OF rec ids']
  obtain S where S: "R = (acc @ [step]) @ S" "length S = length rest"
    "\<forall>k<length rest.
        step_id (S ! k) = uuid (length (acc @ [step]) + k) \<and>
        set (dependencies (S ! k)) \<subseteq> uuid ` {..<length (acc @ [step]) + k}"
    by blast
  from make_step_fields [OF step] have f: "step_id step = uuid ?i" "dependencies step = deps"
    by simp_all
  from r have dr: "set deps \<subseteq> uuid ` {..<?i}"
    unfolding ids by (rule resolve_dependencies_range)
  show ?case
  proof (intro exI [of _ "step # S"] conjI allI impI)
    show "R = acc @ step # S" using S(1) by simp
    show "length (step # S) = length (sd # rest)" using S(2) by simp
  next
    fix k assume k: "k < length (sd # rest)"
    show "step_id ((step # S) ! k) = uuid (?i + k)"
      using k S(3) f(1) by (cases k) auto
    show "set (dependencies ((step # S) ! k)) \<subseteq> uuid ` {..<?i + k}"
    proof (cases k)
      case 0
      then show ?thesis using f(2) dr by simp
    next
      case (Suc k')
      with k S(3) have "set (dependencies (S ! k')) \<subseteq> uuid ` {..<length (acc @ [step]) + k'}"
        by simp
      then show ?thesis using Suc by simp
    qed
  qed
qed

lemma create_workflow_succeeds:
  assumes "list_all step_def_ok defs"
  shows "\<exists>workflow. snd (create_workflow uuid mgr defs) = Inr workflow"
proof -
  have "[] = map uuid [0..<length ([] :: WorkflowStep list)]" by simp
  from build_steps_ok [OF assms this, of "length defs" "log_warnings mgr"]
  obtain S where "build_steps uuid (length defs) defs [] [] (log_warnings mgr)
               = (log_warnings mgr @ dropped_from 0 (length defs) defs, Inr S)"
    by auto
  then show ?thesis by (simp add: create_workflow_def Let_def)
qed

text \<open>
  C10: for every workflow that \<^verbatim>\<open>create_workflow\<close> returns, provided the ids drawn from
  \<^verbatim>\<open>uuid4\<close> for its steps are pairwise different: the step ids are distinct, every
  entry of a step's \<^verbatim>\<open>dependencies\<close> is the id of a step at a strictly earlier position
  (so an id of the workflow) and is not the step's own id, and the dependency graph is
  acyclic.
\<close>

theorem create_workflow_acyclic:
  assumes "create_workflow uuid mgr defs = (mgr', Inr workflow)"
    and "inj_on uuid {..<length defs}"
  shows "distinct (map step_id (steps workflow)) \<and>
         (\<forall>i<length (steps workflow). \<forall>dep\<in>set (dependencies (steps workflow ! i)).
            (\<exists>j<i. dep = step_id (steps workflow ! j)) \<and> dep \<noteq> step_id (steps workflow ! i)) \<and>
         acyclic (dependency_graph (steps workflow))"
proof -
  obtain w r where br: "build_steps uuid (length defs) defs [] [] (log_warnings mgr) = (w, r)"
    by (cases "build_steps uuid (length defs) defs [] [] (log_warnings mgr)")
  have "\<exists>R. r = Inr R \<and> steps workflow = R"
  proof (cases r)
    case (Inl e)
    with assms(1) br show ?thesis by (simp add: create_workflow_def)
  next
    case (Inr R)
    with assms(1) br have "steps workflow = R"
      by (simp add: create_workflow_def Let_def) (metis Workflow.select_convs(4))
    with Inr show ?thesis by simp
  qed
  with br obtain R where b: "build_steps uuid (length defs) defs [] [] (log_warnings mgr) = (w, Inr R)"
    and st: "steps workflow = R"
    by blast
  have "[] = map uuid [0..<length ([] :: WorkflowStep list)]" by simp
  from build_steps_Inr [OF b this]
  obtain S where S: "R = [] @ S" "length S = length defs"
    "\<forall>k<length defs.
        step_id (S ! k) = uuid (length ([] :: WorkflowStep list) + k) \<and>
        set (dependencies (S ! k)) \<subseteq> uuid ` {..<length ([] :: WorkflowStep list) + k}"
    by blast
  from S(1) have RS: "R = S" by simp
  have len: "length R = length defs" using S(2) RS by simp
  have ids: "step_id (R ! k) = uuid k" if "k < length defs" for k
    using S(3) that RS by simp
  have deps: "set (dependencies (R ! k)) \<subseteq> uuid ` {..<k}" if "k < length defs" for k
    using S(3) that RS by simp
  have m: "map step_id R = map uuid [0..<length defs]"
  proof (rule nth_equalityI)
    show "length (map step_id R) = length (map uuid [0..<length defs])" using len by simp
  next
    fix i assume "i < length (map step_id R)"
    then show "map step_id R ! i = map uuid [0..<length defs] ! i" using len ids by simp
  qed
  have inj: "inj_on uuid {0..<length defs}"
    using assms(2) by (auto simp: inj_on_def)
  have d: "distinct (map step_id R)"
    unfolding m by (simp add: distinct_map inj)
  have e: "(\<exists>j<i. dep = step_id (R ! j)) \<and> dep \<noteq> step_id (R ! i)"
    if i: "i < length R" and dep: "dep \<in> set (dependencies (R ! i))" for i dep
  proof -
    from i len deps dep obtain j where j: "j < i" "dep = uuid j" by fastforce
    with i len have "dep = step_id (R ! j)" by (simp add: ids)
    moreover have "uuid j \<noteq> uuid i"
      using j(1) i len assms(2) by (auto simp: inj_on_def)
    ultimately show ?thesis using j i len by (auto simp: ids)
  qed
  let ?pos = "the_inv_into {..<length defs} uuid"
  have "(dependency_graph R)\<inverse> \<subseteq> measure ?pos"
  proof
    fix p assume "p \<in> (dependency_graph R)\<inverse>"
    then obtain s dep where p: "p = (dep, step_id s)" "s \<in> set R" "dep \<in> set (dependencies s)"
      by (auto simp: dependency_graph_def)
    from p(2) obtain i where i: "i < length R" "s = R ! i" by (auto simp: in_set_conv_nth)
    with deps [of i] len p(3) obtain j where j: "j < i" "dep = uuid j" by fastforce
    have "?pos (uuid j) = j" "?pos (uuid i) = i"
      using assms(2) j(1) i(1) len by (simp_all add: the_inv_into_f_f)
    then show "p \<in> measure ?pos"
      using p(1) i len j by (simp add: ids)
  qed
  then have "wf ((dependency_graph R)\<inverse>)" by (rule wf_subset [OF wf_measure])
  then have "acyclic ((dependency_graph R)\<inverse>)" by (rule wf_acyclic)
  then have "acyclic (dependency_graph R)" by simp
  with d e show ?thesis unfolding st by blast
qed

lemma demo_uuid_inj3: "inj_on demo_uuid {..<length demo_defs}"
  by (simp add: demo_defs_def inj_on_def demo_uuid_def lessThan_def less_Suc_eq numeral_3_eq_3)

theorem create_workflow_acyclic_witness:
  "create_workflow demo_uuid manager_init demo_defs
     = (fst (create_workflow demo_uuid manager_init demo_defs),
        Inr (projr (snd (create_workflow demo_uuid manager_init demo_defs)))) \<and>
   inj_on demo_uuid {..<length demo_defs} \<and>
   distinct (map step_id (steps (projr (snd (create_workflow demo_uuid manager_init demo_defs))))) \<and>
   acyclic (dependency_graph
              (steps (projr (snd (create_workflow demo_uuid manager_init demo_defs)))))"
proof -
  from create_workflow_succeeds [OF demo_defs_ok, of demo_uuid manager_init]
  have c: "create_workflow demo_uuid manager_init demo_defs
     = (fst (create_workflow demo_uuid manager_init demo_defs),
        Inr (projr (snd (create_workflow demo_uuid manager_init demo_defs))))"
    by (metis prod.collapse sum.sel(2))
  from create_workflow_acyclic [OF c demo_uuid_inj3]
  show ?thesis using c demo_uuid_inj3 by simp
qed


section \<open>Properties of workflow execution\<close>

declare workflow_loop.simps [simp del]

lemma run_step_not_ready:
  "\<not> step_ready (completed_steps st) (ex_steps st ! i) \<Longrightarrow> run_step i st = (st, None)"
  by (simp add: run_step_def Let_def)

text \<open>
  What the body of the scan does for a step that is ready: one dispatch is recorded;
  when it failed, the step is marked as failed and the exception leaves the scan, and
  otherwise the step is marked as completed and its id joins \<^verbatim>\<open>completed_steps\<close>.
\<close>

lemma run_step_ready:
  assumes "step_ready (completed_steps st) (ex_steps st ! i)"
  shows "\<exists>d mgr'.
           d_index d = i \<and> d_completed d = completed_steps st \<and> d_steps d = ex_steps st \<and>
           (if dispatch_failed d
            then run_step i st =
                   (st\<lparr>ex_mgr := mgr', dispatched := dispatched st @ [d],
                       ex_steps := failed_steps d\<rparr>, Some (dispatch_error d))
            else \<exists>s' r'.
                   run_step i st =
                     (st\<lparr>ex_mgr := mgr', dispatched := dispatched st @ [d],
                         ex_steps := (ex_steps st)[i := s'], results := r',
                         completed_steps :=
                           set_add (step_id (ex_steps st ! i)) (completed_steps st)\<rparr>, None) \<and>
                   step_id s' = step_id (ex_steps st ! i) \<and>
                   dependencies s' = dependencies (ex_steps st ! i) \<and>
                   step_status s' = ''completed'')"
proof -
  let ?step = "ex_steps st ! i"
  obtain mgr' outcome where q:
    "query_agent (ex_mgr st) (step_agent_type ?step) (PStr (task ?step)) (Some (step_data ?step)) None
       = (mgr', outcome)"
    by (cases "query_agent (ex_mgr st) (step_agent_type ?step) (PStr (task ?step))
                 (Some (step_data ?step)) None")
  let ?d = "\<lparr>d_index = i, d_completed = completed_steps st, d_steps = ex_steps st,
             d_started = clock (ex_mgr st), d_finished = clock mgr', d_outcome = outcome\<rparr>"
  show ?thesis
  proof (intro exI [of _ ?d] exI [of _ mgr'] conjI)
    show "if dispatch_failed ?d
          then run_step i st =
                 (st\<lparr>ex_mgr := mgr', dispatched := dispatched st @ [?d],
                     ex_steps := failed_steps ?d\<rparr>, Some (dispatch_error ?d))
          else \<exists>s' r'.
                 run_step i st =
                   (st\<lparr>ex_mgr := mgr', dispatched := dispatched st @ [?d],
                       ex_steps := (ex_steps st)[i := s'], results := r',
                       completed_steps :=
                         set_add (step_id (ex_steps st ! i)) (completed_steps st)\<rparr>, None) \<and>
                 step_id s' = step_id (ex_steps st ! i) \<and>
                 dependencies s' = dependencies (ex_steps st ! i) \<and>
                 step_status s' = ''completed''"
    proof (cases outcome)
      case (Inl e)
      then show ?thesis
        using assms q
        by (simp add: run_step_def Let_def dispatch_failed_def dispatch_error_def failed_steps_def)
    next
      case (Inr response)
      show ?thesis
      proof (cases "success response")
        case True
        let ?s' = "?step\<lparr>step_started_at := Some (clock (ex_mgr st)), step_status := ''completed'', result := resp_data response,
                          step_completed_at := Some (clock mgr')\<rparr>"
        have "run_step i st =
                (st\<lparr>ex_mgr := mgr', dispatched := dispatched st @ [?d],
                    ex_steps := (ex_steps st)[i := ?s'],
                    results := AList.update (step_id ?step) (resp_data response) (results st),
                    completed_steps := set_add (step_id ?step) (completed_steps st)\<rparr>, None)"
          using assms q Inr True by (simp add: run_step_def Let_def)
        then show ?thesis using Inr True by (auto simp: dispatch_failed_def)
      next
        case False
        then show ?thesis
          using assms q Inr
          by (simp add: run_step_def Let_def dispatch_failed_def dispatch_error_def
                failed_steps_def)
      qed
    qed
  qed simp_all
qed


subsection \<open>Invariants of the scan\<close>

lemma same_graph_update:
  assumes "same_graph ss ss0" and "i < length ss"
    and "step_id s' = step_id (ss ! i)" and "dependencies s' = dependencies (ss ! i)"
  shows "same_graph (ss[i := s']) ss0"
proof -
  have "map step_id (ss[i := s']) = map step_id ss"
    using assms(2,3) by (simp add: map_update list_update_same_conv)
  moreover have "map dependencies (ss[i := s']) = map dependencies ss"
    using assms(2,4) by (simp add: map_update list_update_same_conv)
  ultimately show ?thesis using assms(1) by (simp add: same_graph_def)
qed

lemma same_graph_failed_steps:
  assumes "same_graph (d_steps d) ss0" and "d_index d < length (d_steps d)"
  shows "same_graph (failed_steps d) ss0"
  unfolding failed_steps_def using assms by (intro same_graph_update) simp_all

lemma same_graph_length: "same_graph ss ss0 \<Longrightarrow> length ss = length ss0"
  unfolding same_graph_def by (metis length_map)

lemma run_step_trace_inv:
  assumes "trace_inv ss0 st" and "i < length (ex_steps st)" and "run_step i st = (st', r)"
  shows "trace_inv ss0 st'"
proof (cases "step_ready (completed_steps st) (ex_steps st ! i)")
  case False
  with assms show ?thesis by (simp add: run_step_not_ready)
next
  case True
  from run_step_ready [OF True] obtain d mgr' where d:
    "d_index d = i" "d_completed d = completed_steps st" "d_steps d = ex_steps st"
    and r: "if dispatch_failed d
            then run_step i st =
                   (st\<lparr>ex_mgr := mgr', dispatched := dispatched st @ [d],
                       ex_steps := failed_steps d\<rparr>, Some (dispatch_error d))
            else \<exists>s' r'.
                   run_step i st =
                     (st\<lparr>ex_mgr := mgr', dispatched := dispatched st @ [d],
                         ex_steps := (ex_steps st)[i := s'], results := r',
                         completed_steps :=
                           set_add (step_id (ex_steps st ! i)) (completed_steps st)\<rparr>, None) \<and>
                   step_id s' = step_id (ex_steps st ! i) \<and>
                   dependencies s' = dependencies (ex_steps st ! i) \<and>
                   step_status s' = ''completed''"
    by blast
  from assms(1) have g: "same_graph (ex_steps st) ss0"
    and old: "list_all (\<lambda>d. dispatch_ready d \<and> same_graph (d_steps d) ss0) (dispatched st)"
    by (simp_all add: trace_inv_def)
  have new: "dispatch_ready d \<and> same_graph (d_steps d) ss0"
    using d True assms(2) g by (simp add: dispatch_ready_def)
  show ?thesis
  proof (cases "dispatch_failed d")
    case True
    with r assms(3) have "st' = st\<lparr>ex_mgr := mgr', dispatched := dispatched st @ [d],
                                    ex_steps := failed_steps d\<rparr>" by simp
    moreover have "same_graph (failed_steps d) ss0"
      using new d assms(2) by (intro same_graph_failed_steps) simp_all
    ultimately show ?thesis using old new by (simp add: trace_inv_def)
  next
    case False
    with r assms(3) obtain s' r' where s':
      "st' = st\<lparr>ex_mgr := mgr', dispatched := dispatched st @ [d],
                ex_steps := (ex_steps st)[i := s'], results := r',
                completed_steps := set_add (step_id (ex_steps st ! i)) (completed_steps st)\<rparr>"
      "step_id s' = step_id (ex_steps st ! i)" "dependencies s' = dependencies (ex_steps st ! i)"
      by auto
    have "same_graph ((ex_steps st)[i := s']) ss0"
      using g assms(2) s'(2,3) by (rule same_graph_update)
    then show ?thesis using old new s'(1) by (simp add: trace_inv_def)
  qed
qed

lemma run_step_completed_inv:
  assumes "completed_inv st" and "i < length (ex_steps st)" and "run_step i st = (st', r)"
  shows "completed_inv st'"
proof (cases "step_ready (completed_steps st) (ex_steps st ! i)")
  case False
  with assms show ?thesis by (simp add: run_step_not_ready)
next
  case True
  let ?step = "ex_steps st ! i"
  from run_step_ready [OF True] obtain d mgr' where d:
    "d_index d = i" "d_completed d = completed_steps st" "d_steps d = ex_steps st"
    and r: "if dispatch_failed d
            then run_step i st =
                   (st\<lparr>ex_mgr := mgr', dispatched := dispatched st @ [d],
                       ex_steps := failed_steps d\<rparr>, Some (dispatch_error d))
            else \<exists>s' r'.
                   run_step i st =
                     (st\<lparr>ex_mgr := mgr', dispatched := dispatched st @ [d],
                         ex_steps := (ex_steps st)[i := s'], results := r',
                         completed_steps :=
                           set_add (step_id (ex_steps st ! i)) (completed_steps st)\<rparr>, None) \<and>
                   step_id s' = step_id (ex_steps st ! i) \<and>
                   dependencies s' = dependencies (ex_steps st ! i) \<and>
                   step_status s' = ''completed''"
    by blast
  from assms(1) have dist: "distinct (map step_id (ex_steps st))"
    and comp: "\<And>s. s \<in> set (ex_steps st) \<Longrightarrow> step_id s \<in> set (completed_steps st)
                 \<Longrightarrow> step_status s = ''completed''"
    and old: "list_all deps_completed (dispatched st)"
    by (auto simp: completed_inv_def list_all_iff)
  from True have notin: "step_id ?step \<notin> set (completed_steps st)"
    and deps: "\<And>dep. dep \<in> set (dependencies ?step) \<Longrightarrow> dep \<in> set (completed_steps st)"
    by (auto simp: step_ready_def list_all_iff)
  have new: "deps_completed d"
    unfolding deps_completed_def list_all_iff using d deps comp by auto
  have upd: "distinct (map step_id ((ex_steps st)[i := s'])) \<and>
             (\<forall>s \<in> set ((ex_steps st)[i := s']). s = s' \<or> (s \<in> set (ex_steps st) \<and> step_id s \<noteq> step_id s'))"
    if id: "step_id s' = step_id ?step" for s'
  proof
    have m: "map step_id ((ex_steps st)[i := s']) = map step_id (ex_steps st)"
      using assms(2) id by (simp add: map_update list_update_same_conv)
    then show "distinct (map step_id ((ex_steps st)[i := s']))" using dist by simp
    show "\<forall>s \<in> set ((ex_steps st)[i := s']). s = s' \<or> (s \<in> set (ex_steps st) \<and> step_id s \<noteq> step_id s')"
    proof
      fix s assume "s \<in> set ((ex_steps st)[i := s'])"
      then obtain j where j: "j < length (ex_steps st)" "s = (ex_steps st)[i := s'] ! j"
        by (auto simp: in_set_conv_nth)
      show "s = s' \<or> (s \<in> set (ex_steps st) \<and> step_id s \<noteq> step_id s')"
      proof (cases "j = i")
        case True
        with j show ?thesis by simp
      next
        case False
        with j have s: "s = ex_steps st ! j" by simp
        have "step_id (ex_steps st ! j) \<noteq> step_id (ex_steps st ! i)"
          using dist j(1) assms(2) False by (simp add: distinct_conv_nth)
        with s j(1) id show ?thesis by simp
      qed
    qed
  qed
  show ?thesis
  proof (cases "dispatch_failed d")
    case True
    let ?f = "?step\<lparr>step_started_at := Some (d_started d), step_status := ''failed'',
                    step_error := Some (str_of_error (dispatch_error d)),
                    step_completed_at := Some (d_finished d)\<rparr>"
    from True r assms(3) have st': "st' = st\<lparr>ex_mgr := mgr', dispatched := dispatched st @ [d],
                                    ex_steps := (ex_steps st)[i := ?f]\<rparr>"
      by (simp add: failed_steps_def d)
    have id: "step_id ?f = step_id ?step" by simp
    from upd [OF id] notin comp show ?thesis
      unfolding st' completed_inv_def list_all_iff using old new
      by (auto simp: list_all_iff)
  next
    case False
    with r assms(3) obtain s' r' where s':
      "st' = st\<lparr>ex_mgr := mgr', dispatched := dispatched st @ [d],
                ex_steps := (ex_steps st)[i := s'], results := r',
                completed_steps := set_add (step_id ?step) (completed_steps st)\<rparr>"
      "step_id s' = step_id ?step" "step_status s' = ''completed''"
      by auto
    from upd [OF s'(2)] s'(2,3) comp show ?thesis
      unfolding s'(1) completed_inv_def list_all_iff using old new
      by (auto simp: list_all_iff set_add_def)
  qed
qed


lemma run_step_length:
  assumes "i < length (ex_steps st)" and "run_step i st = (st', r)"
  shows "length (ex_steps st') = length (ex_steps st)"
proof (cases "step_ready (completed_steps st) (ex_steps st ! i)")
  case False
  with assms show ?thesis by (simp add: run_step_not_ready)
next
  case True
  from run_step_ready [OF True] assms(2) show ?thesis
    by (auto simp: failed_steps_def split: if_splits)
qed

text \<open>
  A property that the body of the scan keeps at every position is kept by the scan, by
  the loop and up to the end of the execution.
\<close>

lemma scan_steps_invariant:
  assumes "P st" and "\<forall>i\<in>set idxs. i < length (ex_steps st)"
    and "scan_steps idxs st = (st', r)"
    and step: "\<And>i s s' r. P s \<Longrightarrow> i < length (ex_steps s) \<Longrightarrow> run_step i s = (s', r) \<Longrightarrow> P s'"
  shows "P st' \<and> length (ex_steps st') = length (ex_steps st)"
  using assms(1,2,3)
proof (induction idxs arbitrary: st)
  case Nil
  then show ?case by simp
next
  case (Cons i rest)
  obtain s1 r1 where s1: "run_step i st = (s1, r1)" by (cases "run_step i st")
  from Cons.prems(2) have i: "i < length (ex_steps st)" by simp
  have P1: "P s1" using step [OF Cons.prems(1) i s1] .
  have l1: "length (ex_steps s1) = length (ex_steps st)" using run_step_length [OF i s1] .
  show ?case
  proof (cases r1)
    case None
    with Cons.prems(3) s1 have "scan_steps rest s1 = (st', r)" by simp
    moreover have "\<forall>j\<in>set rest. j < length (ex_steps s1)" using Cons.prems(2) l1 by simp
    ultimately show ?thesis using Cons.IH [OF P1] l1 by simp
  next
    case (Some e)
    with Cons.prems(3) s1 have "st' = s1" by simp
    with P1 l1 show ?thesis by simp
  qed
qed

lemma workflow_loop_invariant:
  assumes "P st"
    and step: "\<And>i s s' r. P s \<Longrightarrow> i < length (ex_steps s) \<Longrightarrow> run_step i s = (s', r) \<Longrightarrow> P s'"
    and tk: "\<And>s. P s \<Longrightarrow> P (s\<lparr>ex_mgr := tick (ex_mgr s)\<rparr>)"
  shows "P (fst (workflow_loop fuel st))"
  using assms(1)
proof (induction fuel arbitrary: st)
  case 0
  then show ?case by (simp add: workflow_loop.simps)
next
  case (Suc fuel)
  obtain s1 r1 where s1: "scan_steps [0..<length (ex_steps st)] st = (s1, r1)"
    by (cases "scan_steps [0..<length (ex_steps st)] st")
  have "\<forall>i\<in>set [0..<length (ex_steps st)]. i < length (ex_steps st)" by simp
  from scan_steps_invariant [of P, OF Suc.prems this s1 step] have P1: "P s1" by simp
  show ?case
  proof (cases "length (completed_steps st) < length (ex_steps st)")
    case False
    with Suc.prems show ?thesis by (simp add: workflow_loop.simps)
  next
    case True
    show ?thesis
    proof (cases r1)
      case (Some e)
      with True s1 P1 show ?thesis by (simp add: workflow_loop.simps [of "Suc fuel"])
    next
      case None
      show ?thesis
      proof (cases "length (completed_steps s1) = 0")
        case True
        with \<open>length (completed_steps st) < length (ex_steps st)\<close> None s1 P1
        show ?thesis by (simp add: workflow_loop.simps [of "Suc fuel"])
      next
        case False
        have "P (fst (workflow_loop fuel (s1\<lparr>ex_mgr := tick (ex_mgr s1)\<rparr>)))"
          using Suc.IH [OF tk [OF P1]] .
        with False \<open>length (completed_steps st) < length (ex_steps st)\<close> None s1
        show ?thesis by (simp add: workflow_loop.simps [of "Suc fuel"])
      qed
    qed
  qed
qed

lemma execute_workflow_dispatched:
  assumes "map_of (workflows mgr) wid = Some workflow"
  shows "fst (snd (execute_workflow fuel mgr wid)) =
           dispatched (fst (workflow_loop fuel
              \<lparr>ex_mgr = mgr, ex_steps = steps workflow, results = [],
               completed_steps = [], dispatched = []\<rparr>))"
  using assms
  by (simp add: execute_workflow_def Let_def split: prod.splits loop_exit.splits)

subsection \<open>Claim C2\<close>

text \<open>
  C2: every dispatch of \<^verbatim>\<open>execute_workflow\<close> is made for a step of the stored workflow
  that had the status \<open>pending\<close> and of which every dependency was in
  \<^verbatim>\<open>completed_steps\<close> at that moment. When the ids of the steps are distinct, every
  step named by a dependency of the dispatched step then had the status \<open>completed\<close>,
  so a step with a dependency whose status is \<open>failed\<close> is never dispatched. The steps
  keep their ids and their dependencies during the execution.
\<close>

theorem execute_workflow_dispatch_order:
  "map_of (workflows mgr) wid = Some workflow \<Longrightarrow>
   d \<in> set (fst (snd (execute_workflow fuel mgr wid))) \<Longrightarrow>
   d_index d < length (d_steps d) \<and>
   map step_id (d_steps d) = map step_id (steps workflow) \<and>
   map dependencies (d_steps d) = map dependencies (steps workflow) \<and>
   step_status (d_steps d ! d_index d) = ''pending'' \<and>
   (\<forall>dep\<in>set (dependencies (d_steps d ! d_index d)). dep \<in> set (d_completed d)) \<and>
   (distinct (map step_id (steps workflow)) \<longrightarrow>
      (\<forall>dep\<in>set (dependencies (d_steps d ! d_index d)).
         \<forall>s\<in>set (d_steps d). step_id s = dep \<longrightarrow> step_status s = ''completed''))"
proof -
  assume w: "map_of (workflows mgr) wid = Some workflow"
    and d: "d \<in> set (fst (snd (execute_workflow fuel mgr wid)))"
  let ?init = "\<lparr>ex_mgr = mgr, ex_steps = steps workflow, results = [],
               completed_steps = [], dispatched = []\<rparr>"
  let ?fin = "fst (workflow_loop fuel ?init)"
  from d have din: "d \<in> set (dispatched ?fin)" by (simp add: execute_workflow_dispatched [OF w])
  have "trace_inv (steps workflow) ?init" by (simp add: trace_inv_def same_graph_def)
  moreover have "trace_inv (steps workflow) (s\<lparr>ex_mgr := tick (ex_mgr s)\<rparr>)"
    if "trace_inv (steps workflow) s" for s
    using that by (simp add: trace_inv_def)
  ultimately have "trace_inv (steps workflow) ?fin"
    using workflow_loop_invariant [of "trace_inv (steps workflow)" ?init fuel]
          run_step_trace_inv [of "steps workflow"]
    by blast
  with din have t: "dispatch_ready d" "same_graph (d_steps d) (steps workflow)"
    by (auto simp: trace_inv_def list_all_iff)
  have c: "deps_completed d" if "distinct (map step_id (steps workflow))"
  proof -
    from that have "completed_inv ?init" by (simp add: completed_inv_def list_all_iff)
    moreover have "completed_inv (s\<lparr>ex_mgr := tick (ex_mgr s)\<rparr>)" if "completed_inv s" for s
      using that by (simp add: completed_inv_def)
    ultimately have "completed_inv ?fin"
      using workflow_loop_invariant [of completed_inv ?init fuel] run_step_completed_inv
      by blast
    with din show ?thesis by (auto simp: completed_inv_def list_all_iff)
  qed
  from t c show ?thesis
    by (auto simp: dispatch_ready_def same_graph_def step_ready_def deps_completed_def list_all_iff)
qed


subsection \<open>Failure of a dispatched step\<close>

lemma run_step_clean:
  assumes "clean st" and "run_step i st = (st', r)"
  shows "case r of None \<Rightarrow> clean st' | Some e \<Rightarrow> failure_exit st' e"
proof (cases "step_ready (completed_steps st) (ex_steps st ! i)")
  case False
  with assms show ?thesis by (simp add: run_step_not_ready)
next
  case True
  from run_step_ready [OF True] obtain d mgr' where
    r: "if dispatch_failed d
            then run_step i st =
                   (st\<lparr>ex_mgr := mgr', dispatched := dispatched st @ [d],
                       ex_steps := failed_steps d\<rparr>, Some (dispatch_error d))
            else \<exists>s' r'.
                   run_step i st =
                     (st\<lparr>ex_mgr := mgr', dispatched := dispatched st @ [d],
                         ex_steps := (ex_steps st)[i := s'], results := r',
                         completed_steps :=
                           set_add (step_id (ex_steps st ! i)) (completed_steps st)\<rparr>, None) \<and>
                   step_id s' = step_id (ex_steps st ! i) \<and>
                   dependencies s' = dependencies (ex_steps st ! i) \<and>
                   step_status s' = ''completed''"
    by blast
  show ?thesis
  proof (cases "dispatch_failed d")
    case True
    with r assms show ?thesis by (auto simp: clean_def failure_exit_def)
  next
    case False
    with r assms show ?thesis by (auto simp: clean_def)
  qed
qed

lemma scan_steps_clean:
  assumes "clean st" and "scan_steps idxs st = (st', r)"
  shows "case r of None \<Rightarrow> clean st' | Some e \<Rightarrow> failure_exit st' e"
  using assms
proof (induction idxs arbitrary: st)
  case Nil
  then show ?case by simp
next
  case (Cons i rest)
  obtain s1 r1 where s1: "run_step i st = (s1, r1)" by (cases "run_step i st")
  from run_step_clean [OF Cons.prems(1) s1]
  have c: "case r1 of None \<Rightarrow> clean s1 | Some e \<Rightarrow> failure_exit s1 e" .
  show ?case
  proof (cases r1)
    case None
    with Cons.prems(2) s1 c Cons.IH [of s1] show ?thesis by simp
  next
    case (Some e)
    with Cons.prems(2) s1 c show ?thesis by auto
  qed
qed

lemma workflow_loop_clean:
  assumes "clean st" and "workflow_loop fuel st = (st', x)"
  shows "case x of LoopRaised e \<Rightarrow> (clean st' \<and> e = deadlock_error) \<or> failure_exit st' e
                 | _ \<Rightarrow> clean st'"
  using assms
proof (induction fuel arbitrary: st)
  case 0
  then show ?case by (auto simp: workflow_loop.simps split: if_splits)
next
  case (Suc fuel)
  show ?case
  proof (cases "length (completed_steps st) < length (ex_steps st)")
    case False
    with Suc.prems show ?thesis by (auto simp: workflow_loop.simps)
  next
    case True
    obtain s1 r1 where s1: "scan_steps [0..<length (ex_steps st)] st = (s1, r1)"
      by (cases "scan_steps [0..<length (ex_steps st)] st")
    from scan_steps_clean [OF Suc.prems(1) s1]
    have c: "case r1 of None \<Rightarrow> clean s1 | Some e \<Rightarrow> failure_exit s1 e" .
    show ?thesis
    proof (cases r1)
      case (Some e)
      with True s1 c Suc.prems(2) show ?thesis
        by (auto simp: workflow_loop.simps [of "Suc fuel"])
    next
      case None
      with c have c1: "clean s1" by simp
      show ?thesis
      proof (cases "length (completed_steps s1) = 0")
        case True
        with \<open>length (completed_steps st) < length (ex_steps st)\<close> None s1 c1 Suc.prems(2)
        show ?thesis by (auto simp: workflow_loop.simps [of "Suc fuel"])
      next
        case False
        have "clean (s1\<lparr>ex_mgr := tick (ex_mgr s1)\<rparr>)" using c1 by (simp add: clean_def)
        moreover have "workflow_loop fuel (s1\<lparr>ex_mgr := tick (ex_mgr s1)\<rparr>) = (st', x)"
          using False \<open>length (completed_steps st) < length (ex_steps st)\<close> None s1 Suc.prems(2)
          by (simp add: workflow_loop.simps [of "Suc fuel"])
        ultimately show ?thesis by (rule Suc.IH)
      qed
    qed
  qed
qed

subsection \<open>Claim C3\<close>

text \<open>
  C3: when a dispatch of \<^verbatim>\<open>execute_workflow\<close> fails (the call of \<^verbatim>\<open>query_agent\<close> raises,
  or the response has \<^verbatim>\<open>success = False\<close>), it is the last dispatch of the call and no
  earlier one failed; the call raises the exception of that dispatch; the stored
  workflow has the status \<open>failed\<close>, and its steps are those that it had at the
  dispatch, with their statuses and results, except that the dispatched step has the
  status \<open>failed\<close> and the text of the exception as its error.
\<close>

theorem execute_workflow_step_failure:
  assumes "map_of (workflows mgr) wid = Some workflow"
    and "execute_workflow fuel mgr wid = (mgr', ds, ex)"
    and "d \<in> set ds" and "dispatch_failed d"
  shows "d = last ds \<and> list_all (\<lambda>d'. \<not> dispatch_failed d') (butlast ds) \<and>
         ex = Raises (dispatch_error d) \<and>
         map_option wf_status (map_of (workflows mgr') wid) = Some ''failed'' \<and>
         map_option steps (map_of (workflows mgr') wid) = Some (failed_steps d) \<and>
         d_index d < length (d_steps d) \<and>
         step_status (failed_steps d ! d_index d) = ''failed'' \<and>
         step_error (failed_steps d ! d_index d) = Some (str_of_error (dispatch_error d))"
proof -
  let ?init = "\<lparr>ex_mgr = mgr, ex_steps = steps workflow, results = [],
                completed_steps = [], dispatched = []\<rparr>"
  let ?w1 = "workflow\<lparr>wf_status := ''running'', started_at := Some (clock mgr)\<rparr>"
  obtain st x where l: "workflow_loop fuel ?init = (st, x)"
    by (cases "workflow_loop fuel ?init")
  have ds: "ds = dispatched st"
    using assms(1,2) l by (auto simp: execute_workflow_def Let_def split: loop_exit.splits)
  have "clean ?init" by (simp add: clean_def)
  from workflow_loop_clean [OF this l]
  have c: "case x of LoopRaised e \<Rightarrow> (clean st \<and> e = deadlock_error) \<or> failure_exit st e
                   | _ \<Rightarrow> clean st" .
  have nc: "\<not> clean st" using assms(3,4) ds by (auto simp: clean_def list_all_iff)
  with c obtain e where x: "x = LoopRaised e" and f: "failure_exit st e"
    by (cases x) auto
  from f ds have ne: "ds \<noteq> []"
    and bl: "list_all (\<lambda>d'. \<not> dispatch_failed d') (butlast ds)"
    and e: "e = dispatch_error (last ds)" and fs: "ex_steps st = failed_steps (last ds)"
    by (simp_all add: failure_exit_def)
  have "d \<in> set (butlast ds) \<or> d = last ds"
    using assms(3) ne by (metis append_butlast_last_id in_set_conv_decomp_last insert_iff list.set(2) rotate1.simps(2) set_rotate1)
  with bl assms(4) have dl: "d = last ds" by (auto simp: list_all_iff)
  have ex: "ex = Raises e" and m: "mgr' = store_workflow st wid
               (?w1\<lparr>wf_status := ''failed'', completed_at := Some (clock (ex_mgr st))\<rparr>)"
    using assms(1,2) l x by (auto simp: execute_workflow_def Let_def)
  have tr: "trace_inv (steps workflow) (fst (workflow_loop fuel ?init))"
  proof -
    have "trace_inv (steps workflow) ?init" by (simp add: trace_inv_def same_graph_def)
    moreover have "trace_inv (steps workflow) (s\<lparr>ex_mgr := tick (ex_mgr s)\<rparr>)"
      if "trace_inv (steps workflow) s" for s
      using that by (simp add: trace_inv_def)
    ultimately show ?thesis
      using workflow_loop_invariant [of "trace_inv (steps workflow)" ?init fuel]
            run_step_trace_inv [of "steps workflow"]
      by blast
  qed
  with l assms(3) ds have idx: "d_index d < length (d_steps d)"
    by (auto simp: trace_inv_def list_all_iff dispatch_ready_def)
  show ?thesis
    using dl bl ex e m fs idx
    by (simp add: store_workflow_def update_conv' failed_steps_def)
qed


subsection \<open>A loop that makes no progress\<close>

lemma workflow_loop_0:
  "workflow_loop 0 st =
     (if length (completed_steps st) < length (ex_steps st) then (st, OutOfFuel)
      else (st, LoopDone))"
  by (simp add: workflow_loop.simps)

lemma workflow_loop_Suc:
  "workflow_loop (Suc fuel) st =
     (if length (completed_steps st) < length (ex_steps st) then
        (case scan_steps [0..<length (ex_steps st)] st of
           (st', Some e) \<Rightarrow> (st', LoopRaised e)
         | (st', None) \<Rightarrow>
             if completed_steps st' = []
             then (st', LoopRaised deadlock_error)
             else workflow_loop fuel (st'\<lparr>ex_mgr := tick (ex_mgr st')\<rparr>))
      else (st, LoopDone))"
  by (simp add: workflow_loop.simps [of "Suc fuel"])

lemma scan_steps_none_ready:
  "\<forall>i\<in>set idxs. \<not> step_ready (completed_steps st) (ex_steps st ! i) \<Longrightarrow>
   scan_steps idxs st = (st, None)"
  by (induction idxs) (simp_all add: run_step_not_ready)

text \<open>
  When some step has completed, not all have, and no step is ready, the scan changes
  nothing and the deadlock test, which only asks whether \<^verbatim>\<open>completed_steps\<close> is empty,
  lets the loop go on: the loop does not end within any bound.
\<close>

lemma workflow_loop_stuck:
  assumes "completed_steps st \<noteq> []"
    and "length (completed_steps st) < length (ex_steps st)"
    and "\<forall>i<length (ex_steps st). \<not> step_ready (completed_steps st) (ex_steps st ! i)"
  shows "snd (workflow_loop fuel st) = OutOfFuel"
  using assms
proof (induction fuel arbitrary: st)
  case 0
  then show ?case by (simp add: workflow_loop_0)
next
  case (Suc fuel)
  have s: "scan_steps [0..<length (ex_steps st)] st = (st, None)"
    using Suc.prems(3) by (intro scan_steps_none_ready) simp
  let ?st = "st\<lparr>ex_mgr := tick (ex_mgr st)\<rparr>"
  have "snd (workflow_loop fuel ?st) = OutOfFuel"
    using Suc.prems by (intro Suc.IH) simp_all
  then show ?case using Suc.prems(1,2) s by (simp add: workflow_loop_Suc)
qed

lemma mgr_retry0_eval:
  "map_of (workflows mgr_retry0) ''u2'' =
     Some \<lparr>workflow_id = ''u2'', name = ''Workflow_1'', description = ''Generated workflow'',
           steps = [\<lparr>step_id = ''u0'', step_agent_type = ''y'', task = ''ok'',
                     step_data = PDict [], dependencies = [], step_status = ''pending'',
                     result = None, step_error = None, step_started_at = None,
                     step_completed_at = None\<rparr>,
                    \<lparr>step_id = ''u1'', step_agent_type = ''x'', task = ''ok'',
                     step_data = PDict [], dependencies = [], step_status = ''pending'',
                     result = None, step_error = None, step_started_at = None,
                     step_completed_at = None\<rparr>],
           wf_status = ''pending'', created_at = 1, started_at = None, completed_at = None,
           wf_metadata = PDict []\<rparr> \<and>
   agent_types mgr_retry0 = [(''x'', [''a1''])] \<and> clock mgr_retry0 = 1 \<and>
   map_of (agents mgr_retry0) ''a1'' =
     Some \<lparr>reg_agent_id = ''a1'', reg_agent_type = ''x'',
           agent_instance = demo_agent ''a1'' ''healthy'', capabilities = [''analyze''],
           registered_at = 1, last_heartbeat = 1, reg_status = ''active''\<rparr>"
  by (simp add: mgr_retry0_def create_workflow_def retry_defs_def step_def_def
        declared_dependencies_def make_step_def register_agent_def manager_init_def
        demo_agent_def dict_keys_def tick_def set_add_def cm_register_agent_def cm_init_def
        demo_uuid_def Let_def)


lemmas mgr_retry0_facts =
  mgr_retry0_eval [THEN conjunct1]
  mgr_retry0_eval [THEN conjunct2, THEN conjunct1]
  mgr_retry0_eval [THEN conjunct2, THEN conjunct2, THEN conjunct1]
  mgr_retry0_eval [THEN conjunct2, THEN conjunct2, THEN conjunct2]

lemma upt_2: "[0..<2] = [0, Suc 0]"
  by (simp add: numeral_2_eq_2)

lemma retry_first_run:
  "snd (snd (execute_workflow 1 mgr_retry0 ''u2'')) = Raises (no_agents_error ''y'') \<and>
   map_of (workflows mgr_retry) ''u2'' =
     Some \<lparr>workflow_id = ''u2'', name = ''Workflow_1'', description = ''Generated workflow'',
           steps = [\<lparr>step_id = ''u0'', step_agent_type = ''y'', task = ''ok'',
                     step_data = PDict [], dependencies = [], step_status = ''failed'',
                     result = None,
                     step_error = Some (str_of_error (no_agents_error ''y'')),
                     step_started_at = Some 1, step_completed_at = Some 1\<rparr>,
                    \<lparr>step_id = ''u1'', step_agent_type = ''x'', task = ''ok'',
                     step_data = PDict [], dependencies = [], step_status = ''pending'',
                     result = None, step_error = None, step_started_at = None,
                     step_completed_at = None\<rparr>],
           wf_status = ''failed'', created_at = 1, started_at = Some 1, completed_at = Some 1,
           wf_metadata = PDict []\<rparr> \<and>
   agent_types mgr_retry = [(''x'', [''a1''])] \<and> clock mgr_retry = 1 \<and>
   map_of (agents mgr_retry) ''a1'' =
     Some \<lparr>reg_agent_id = ''a1'', reg_agent_type = ''x'',
           agent_instance = demo_agent ''a1'' ''healthy'', capabilities = [''analyze''],
           registered_at = 1, last_heartbeat = 1, reg_status = ''active''\<rparr>"
  by (simp add: mgr_retry_def execute_workflow_def mgr_retry0_facts workflow_loop_Suc
        workflow_loop_0 upt_2 run_step_def step_ready_def query_agent_def select_agent_def
        store_workflow_def update_conv' Let_def)


lemmas mgr_retry_facts =
  retry_first_run [THEN conjunct2, THEN conjunct1]
  retry_first_run [THEN conjunct2, THEN conjunct2, THEN conjunct1]
  retry_first_run [THEN conjunct2, THEN conjunct2, THEN conjunct2, THEN conjunct1]
  retry_first_run [THEN conjunct2, THEN conjunct2, THEN conjunct2, THEN conjunct2]

lemma retry_second_scan:
  "\<exists>s1. scan_steps [0..<2]
           \<lparr>ex_mgr = mgr_retry,
            ex_steps = steps (the (map_of (workflows mgr_retry) ''u2'')),
            results = [], completed_steps = [], dispatched = []\<rparr> = (s1, None) \<and>
        completed_steps s1 = [''u1''] \<and>
        map step_status (ex_steps s1) = [''failed'', ''completed'']"
  by (simp add: mgr_retry_facts upt_2 run_step_def step_ready_def query_agent_def
        select_agent_def demo_agent_def set_add_def Let_def)

lemma retry_second_run: "snd (snd (execute_workflow fuel mgr_retry ''u2'')) = NoReturn"
proof -
  let ?w = "the (map_of (workflows mgr_retry) ''u2'')"
  let ?init = "\<lparr>ex_mgr = mgr_retry, ex_steps = steps ?w, results = [],
                completed_steps = [], dispatched = []\<rparr>"
  have len: "length (ex_steps ?init) = 2" by (simp add: mgr_retry_facts)
  have "snd (workflow_loop fuel ?init) = OutOfFuel"
  proof (cases fuel)
    case 0
    then show ?thesis using len by (simp add: workflow_loop_0)
  next
    case (Suc n)
    obtain s1 where s1:
      "scan_steps [0..<2] ?init = (s1, None)" "completed_steps s1 = [''u1'']"
      "map step_status (ex_steps s1) = [''failed'', ''completed'']"
      using retry_second_scan by (elim exE conjE)
    let ?s = "s1\<lparr>ex_mgr := tick (ex_mgr s1)\<rparr>"
    from s1(3) have l1: "length (ex_steps s1) = 2" by (metis length_map length_Cons list.size(3) numeral_2_eq_2)
    have st: "step_status (ex_steps s1 ! i) \<noteq> ''pending''" if "i < 2" for i
    proof -
      from that l1 have "step_status (ex_steps s1 ! i) = map step_status (ex_steps s1) ! i"
        by simp
      with that show ?thesis unfolding s1(3) by (cases i) (auto simp: less_Suc_eq numeral_2_eq_2)
    qed
    have "snd (workflow_loop n ?s) = OutOfFuel"
    proof (rule workflow_loop_stuck)
      show "completed_steps ?s \<noteq> []" using s1(2) by simp
      show "length (completed_steps ?s) < length (ex_steps ?s)" using s1(2) l1 by simp
      show "\<forall>i<length (ex_steps ?s). \<not> step_ready (completed_steps ?s) (ex_steps ?s ! i)"
        using st l1 by (simp add: step_ready_def)
    qed
    then show ?thesis using Suc len s1(1,2) by (simp add: workflow_loop_Suc)
  qed
  then obtain fin where "workflow_loop fuel ?init = (fin, OutOfFuel)"
    by (cases "workflow_loop fuel ?init") auto
  then show ?thesis
    by (simp add: execute_workflow_def mgr_retry_facts Let_def)
qed

subsection \<open>Claim C1\<close>

text \<open>
  C1 fails for a workflow that is executed again after a step of it failed. The first
  execution of the workflow of \<open>mgr_retry0\<close> raises at its first step, for which no
  agent is registered, and leaves that step with the status \<open>failed\<close>. The second
  execution runs the other step; then one of two steps is in \<^verbatim>\<open>completed_steps\<close>, no
  step is ready, and the test \<^verbatim>\<open>len(completed_steps) == 0\<close> does not see that the scan
  started nothing: the call neither returns nor raises, whatever the bound on the
  iterations of the loop.
\<close>

theorem execute_workflow_retry_never_returns:
  "snd (snd (execute_workflow 1 mgr_retry0 ''u2'')) = Raises (no_agents_error ''y'') \<and>
   mgr_retry = fst (execute_workflow 1 mgr_retry0 ''u2'') \<and>
   (\<forall>fuel. snd (snd (execute_workflow fuel mgr_retry ''u2'')) = NoReturn)"
  using retry_first_run retry_second_run by (simp add: mgr_retry_def)


subsection \<open>A run of the example workflow\<close>

lemma upt_3: "[0..<3] = [0, Suc 0, 2]"
  by (simp add: numeral_3_eq_3 numeral_2_eq_2)

lemma mgr_demo_eval:
  "map_of (workflows mgr_demo) ''u3'' =
     Some \<lparr>workflow_id = ''u3'', name = ''Workflow_1'', description = ''Generated workflow'',
           steps = [\<lparr>step_id = ''u0'', step_agent_type = ''x'', task = ''ok'',
                     step_data = PDict [], dependencies = [], step_status = ''pending'',
                     result = None, step_error = None, step_started_at = None,
                     step_completed_at = None\<rparr>,
                    \<lparr>step_id = ''u1'', step_agent_type = ''x'', task = ''fail'',
                     step_data = PDict [], dependencies = [''u0''], step_status = ''pending'',
                     result = None, step_error = None, step_started_at = None,
                     step_completed_at = None\<rparr>,
                    \<lparr>step_id = ''u2'', step_agent_type = ''x'', task = ''ok'',
                     step_data = PDict [], dependencies = [''u1'', ''u1''],
                     step_status = ''pending'',
                     result = None, step_error = None, step_started_at = None,
                     step_completed_at = None\<rparr>],
           wf_status = ''pending'', created_at = 1, started_at = None, completed_at = None,
           wf_metadata = PDict []\<rparr> \<and>
   agent_types mgr_demo = [(''x'', [''a1''])] \<and> clock mgr_demo = 1 \<and>
   map_of (agents mgr_demo) ''a1'' =
     Some \<lparr>reg_agent_id = ''a1'', reg_agent_type = ''x'',
           agent_instance = demo_agent ''a1'' ''healthy'', capabilities = [''analyze''],
           registered_at = 1, last_heartbeat = 1, reg_status = ''active''\<rparr>"
  by (simp add: mgr_demo_def create_workflow_def demo_defs_def step_def_def
        declared_dependencies_def make_step_def register_agent_def manager_init_def
        demo_agent_def dict_keys_def tick_def set_add_def cm_register_agent_def cm_init_def
        demo_uuid_def valid_dependency_def Let_def)

lemmas mgr_demo_facts =
  mgr_demo_eval [THEN conjunct1]
  mgr_demo_eval [THEN conjunct2, THEN conjunct1]
  mgr_demo_eval [THEN conjunct2, THEN conjunct2, THEN conjunct1]
  mgr_demo_eval [THEN conjunct2, THEN conjunct2, THEN conjunct2]

lemma demo_run:
  "map d_index (fst (snd (execute_workflow 1 mgr_demo ''u3''))) = [0, 1] \<and>
   map d_completed (fst (snd (execute_workflow 1 mgr_demo ''u3''))) = [[], [''u0'']] \<and>
   map (\<lambda>d. map step_status (d_steps d)) (fst (snd (execute_workflow 1 mgr_demo ''u3'')))
     = [[''pending'', ''pending'', ''pending''], [''completed'', ''pending'', ''pending'']] \<and>
   map (\<lambda>d. map dependencies (d_steps d)) (fst (snd (execute_workflow 1 mgr_demo ''u3'')))
     = [[[], [''u0''], [''u1'', ''u1'']], [[], [''u0''], [''u1'', ''u1'']]] \<and>
   map (\<lambda>d. map step_id (d_steps d)) (fst (snd (execute_workflow 1 mgr_demo ''u3'')))
     = [[''u0'', ''u1'', ''u2''], [''u0'', ''u1'', ''u2'']] \<and>
   map dispatch_failed (fst (snd (execute_workflow 1 mgr_demo ''u3''))) = [False, True] \<and>
   snd (snd (execute_workflow 1 mgr_demo ''u3'')) = Raises (PyException ''Step failed: boom'') \<and>
   map_option wf_status (map_of (workflows (fst (execute_workflow 1 mgr_demo ''u3''))) ''u3'')
     = Some ''failed'' \<and>
   map_option (\<lambda>w. map (\<lambda>s. (step_status s, result s, step_error s)) (steps w))
       (map_of (workflows (fst (execute_workflow 1 mgr_demo ''u3''))) ''u3'')
     = Some [(''completed'', Some (PDict [(''echo'', PStr ''ok'')]), None),
             (''failed'', None, Some ''Step failed: boom''),
             (''pending'', None, None)]"
  by (simp add: execute_workflow_def mgr_demo_facts workflow_loop_Suc
        workflow_loop_0 upt_3 run_step_def step_ready_def query_agent_def select_agent_def
        store_workflow_def update_conv' Let_def demo_agent_def set_add_def tick_def
        dispatch_failed_def step_failed_error_def str_opt_def)


lemma demo_run_dispatches:
  "length (fst (snd (execute_workflow 1 mgr_demo ''u3''))) = 2 \<and>
   fst (snd (execute_workflow 1 mgr_demo ''u3'')) ! 1 \<in>
     set (fst (snd (execute_workflow 1 mgr_demo ''u3''))) \<and>
   d_index (fst (snd (execute_workflow 1 mgr_demo ''u3'')) ! 1) = 1 \<and>
   d_completed (fst (snd (execute_workflow 1 mgr_demo ''u3'')) ! 1) = [''u0''] \<and>
   map step_id (d_steps (fst (snd (execute_workflow 1 mgr_demo ''u3'')) ! 1))
     = [''u0'', ''u1'', ''u2''] \<and>
   map dependencies (d_steps (fst (snd (execute_workflow 1 mgr_demo ''u3'')) ! 1))
     = [[], [''u0''], [''u1'', ''u1'']] \<and>
   dispatch_failed (fst (snd (execute_workflow 1 mgr_demo ''u3'')) ! 1)"
proof -
  let ?ds = "fst (snd (execute_workflow 1 mgr_demo ''u3''))"
  from demo_run have i: "map d_index ?ds = [0, 1]"
    and c: "map d_completed ?ds = [[], [''u0'']]"
    and ids: "map (\<lambda>d. map step_id (d_steps d)) ?ds
                = [[''u0'', ''u1'', ''u2''], [''u0'', ''u1'', ''u2'']]"
    and deps: "map (\<lambda>d. map dependencies (d_steps d)) ?ds
                = [[[], [''u0''], [''u1'', ''u1'']], [[], [''u0''], [''u1'', ''u1'']]]"
    and f: "map dispatch_failed ?ds = [False, True]"
    by blast+
  from i have len: "length ?ds = 2" by (metis length_map length_Cons list.size(3) numeral_2_eq_2)
  then have n: "(1::nat) < length ?ds" by simp
  from nth_map [OF n, of d_index] i have "d_index (?ds ! 1) = 1" by simp
  moreover from nth_map [OF n, of d_completed] c have "d_completed (?ds ! 1) = [''u0'']" by simp
  moreover from nth_map [OF n, of "\<lambda>d. map step_id (d_steps d)"] ids
  have "map step_id (d_steps (?ds ! 1)) = [''u0'', ''u1'', ''u2'']" by simp
  moreover from nth_map [OF n, of "\<lambda>d. map dependencies (d_steps d)"] deps
  have "map dependencies (d_steps (?ds ! 1)) = [[], [''u0''], [''u1'', ''u1'']]" by simp
  moreover from nth_map [OF n, of dispatch_failed] f have "dispatch_failed (?ds ! 1)" by simp
  moreover from n have "?ds ! 1 \<in> set ?ds" by (rule nth_mem)
  ultimately show ?thesis using len by blast
qed

text \<open>
  C2 on the run of the workflow of \<open>mgr_demo\<close>: the second dispatch is made for the
  step at position 1, which was pending; its only dependency \<open>u0\<close> was in
  \<^verbatim>\<open>completed_steps\<close>, and the step \<open>u0\<close> had the status \<open>completed\<close>.
\<close>

theorem execute_workflow_dispatch_order_witness:
  "map_option workflow_id (map_of (workflows mgr_demo) ''u3'') = Some ''u3'' \<and>
   d_index (fst (snd (execute_workflow 1 mgr_demo ''u3'')) ! 1) = 1 \<and>
   step_status (d_steps (fst (snd (execute_workflow 1 mgr_demo ''u3'')) ! 1) ! 1) = ''pending'' \<and>
   dependencies (d_steps (fst (snd (execute_workflow 1 mgr_demo ''u3'')) ! 1) ! 1) = [''u0''] \<and>
   ''u0'' \<in> set (d_completed (fst (snd (execute_workflow 1 mgr_demo ''u3'')) ! 1)) \<and>
   step_id (d_steps (fst (snd (execute_workflow 1 mgr_demo ''u3'')) ! 1) ! 0) = ''u0'' \<and>
   step_status (d_steps (fst (snd (execute_workflow 1 mgr_demo ''u3'')) ! 1) ! 0) = ''completed''"
proof -
  let ?ds = "fst (snd (execute_workflow 1 mgr_demo ''u3''))"
  let ?d = "?ds ! 1"
  let ?w = "the (map_of (workflows mgr_demo) ''u3'')"
  have w: "map_of (workflows mgr_demo) ''u3'' = Some ?w" by (simp add: mgr_demo_facts)
  have wid: "map_option workflow_id (map_of (workflows mgr_demo) ''u3'') = Some ''u3''"
    by (simp add: mgr_demo_facts)
  have ws: "map step_id (steps ?w) = [''u0'', ''u1'', ''u2'']" by (simp add: mgr_demo_facts)
  from demo_run_dispatches have mem: "?d \<in> set ?ds" and i: "d_index ?d = 1"
    and ids: "map step_id (d_steps ?d) = [''u0'', ''u1'', ''u2'']"
    and deps: "map dependencies (d_steps ?d) = [[], [''u0''], [''u1'', ''u1'']]"
    by blast+
  from ids have len: "length (d_steps ?d) = 3"
    by (metis length_map length_Cons list.size(3) numeral_3_eq_3)
  from len have "dependencies (d_steps ?d ! 1) = map dependencies (d_steps ?d) ! 1" by simp
  with deps have dep1: "dependencies (d_steps ?d ! 1) = [''u0'']" by simp
  from len have "step_id (d_steps ?d ! 0) = map step_id (d_steps ?d) ! 0" by simp
  with ids have id0: "step_id (d_steps ?d ! 0) = ''u0''" by simp
  from len have in0: "d_steps ?d ! 0 \<in> set (d_steps ?d)" by simp
  from ws have dist: "distinct (map step_id (steps ?w))" by simp
  from execute_workflow_dispatch_order [OF w mem]
  have p: "step_status (d_steps ?d ! d_index ?d) = ''pending''"
    and c: "\<forall>dep\<in>set (dependencies (d_steps ?d ! d_index ?d)). dep \<in> set (d_completed ?d)"
    and s: "distinct (map step_id (steps ?w)) \<longrightarrow>
             (\<forall>dep\<in>set (dependencies (d_steps ?d ! d_index ?d)).
                \<forall>s\<in>set (d_steps ?d). step_id s = dep \<longrightarrow> step_status s = ''completed'')"
    by blast+
  from p i have "step_status (d_steps ?d ! 1) = ''pending''" by simp
  moreover from c i dep1 have "''u0'' \<in> set (d_completed ?d)" by simp
  moreover from s dist i dep1 in0 id0 have "step_status (d_steps ?d ! 0) = ''completed''"
    by simp
  ultimately show ?thesis using wid i dep1 id0 by blast
qed

text \<open>
  C3 on the same run: the second dispatch fails and is the last one, the call raises
  \<^verbatim>\<open>Exception("Step failed: boom")\<close>, the workflow and the step at position 1 end with
  the status \<open>failed\<close>, and the step carries the text of the exception.
\<close>

theorem execute_workflow_step_failure_witness:
  "map_option workflow_id (map_of (workflows mgr_demo) ''u3'') = Some ''u3'' \<and>
   dispatch_failed (fst (snd (execute_workflow 1 mgr_demo ''u3'')) ! 1) \<and>
   fst (snd (execute_workflow 1 mgr_demo ''u3'')) ! 1
     = last (fst (snd (execute_workflow 1 mgr_demo ''u3''))) \<and>
   dispatch_error (fst (snd (execute_workflow 1 mgr_demo ''u3'')) ! 1)
     = PyException ''Step failed: boom'' \<and>
   snd (snd (execute_workflow 1 mgr_demo ''u3'')) = Raises (PyException ''Step failed: boom'') \<and>
   map_option wf_status (map_of (workflows (fst (execute_workflow 1 mgr_demo ''u3''))) ''u3'')
     = Some ''failed'' \<and>
   map_option steps (map_of (workflows (fst (execute_workflow 1 mgr_demo ''u3''))) ''u3'')
     = Some (failed_steps (fst (snd (execute_workflow 1 mgr_demo ''u3'')) ! 1)) \<and>
   step_status (failed_steps (fst (snd (execute_workflow 1 mgr_demo ''u3'')) ! 1) ! 1)
     = ''failed'' \<and>
   step_error (failed_steps (fst (snd (execute_workflow 1 mgr_demo ''u3'')) ! 1) ! 1)
     = Some ''Step failed: boom''"
proof -
  let ?x = "execute_workflow 1 mgr_demo ''u3''"
  let ?ds = "fst (snd ?x)"
  let ?d = "?ds ! 1"
  let ?w = "the (map_of (workflows mgr_demo) ''u3'')"
  have w: "map_of (workflows mgr_demo) ''u3'' = Some ?w" by (simp add: mgr_demo_facts)
  have wid: "map_option workflow_id (map_of (workflows mgr_demo) ''u3'') = Some ''u3''"
    by (simp add: mgr_demo_facts)
  have x: "?x = (fst ?x, ?ds, snd (snd ?x))" by simp
  from demo_run_dispatches have mem: "?d \<in> set ?ds" and i: "d_index ?d = 1"
    and f: "dispatch_failed ?d"
    by blast+
  from demo_run have r: "snd (snd ?x) = Raises (PyException ''Step failed: boom'')" by blast
  from execute_workflow_step_failure [OF w x mem f]
  have l: "?d = last ?ds"
    and e: "snd (snd ?x) = Raises (dispatch_error ?d)"
    and ws: "map_option wf_status (map_of (workflows (fst ?x)) ''u3'') = Some ''failed''"
    and ss: "map_option steps (map_of (workflows (fst ?x)) ''u3'') = Some (failed_steps ?d)"
    and st: "step_status (failed_steps ?d ! d_index ?d) = ''failed''"
    and se: "step_error (failed_steps ?d ! d_index ?d) = Some (str_of_error (dispatch_error ?d))"
    by blast+
  from e r have de: "dispatch_error ?d = PyException ''Step failed: boom''" by simp
  from st i have st1: "step_status (failed_steps ?d ! 1) = ''failed''" by simp
  from se i de have se1: "step_error (failed_steps ?d ! 1) = Some ''Step failed: boom''"
    by simp
  from wid f l de r ws ss st1 se1 show ?thesis by blast
qed

end
